theory Spec2Isabelle
  imports Complex_Main "HOL-Library.Multiset"
begin

section \<open>The CDN optimizer: probing and selecting a node\<close>

text \<open>
  Go's \<open>float64\<close> as far as this program can produce it: a finite number, modelled as a
  real (rounding is left out), or \<open>+Inf\<close>, which a division of a positive number by
  zero yields. The program produces no NaN and no \<open>-Inf\<close>.
\<close>

datatype float64 = Finite real | PosInf

text \<open>\<open>x / y\<close> for a positive \<open>x\<close> and a \<open>y\<close> that is not negative.\<close>

definition fdiv :: "real \<Rightarrow> real \<Rightarrow> float64" where
  "fdiv x y = (if y = 0 then PosInf else Finite (x / y))"

text \<open>\<open>x > c\<close> for a finite constant \<open>c\<close>.\<close>

fun exceeds :: "float64 \<Rightarrow> real \<Rightarrow> bool" where
  "exceeds (Finite x) c = (x > c)"
| "exceeds PosInf c = True"

text \<open>
  The optimizer keeps one \<open>CDNNode\<close> per candidate address. Every latency the program
  reads is finite (\<open>-1\<close>, a measured time in milliseconds, or a literal), so the field
  \<open>Latency\<close> is a real; \<open>Speed\<close> can be \<open>+Inf\<close>.
\<close>

record CDNNode =
  IP :: string
  Region :: string
  Latency :: real
  Speed :: float64

text \<open>The Go literal \<open>CDNNode{...}\<close> leaves every field it does not name at its zero value.\<close>

definition zeroNode :: CDNNode where
  "zeroNode = \<lparr>IP = [], Region = [], Latency = 0, Speed = Finite 0\<rparr>"

text \<open>
  What the network did in one probe. \<open>net.DialTimeout\<close> either fails or connects, and
  then \<open>time.Since\<close> reports the elapsed nanoseconds (a \<open>time.Duration\<close>; the clock is
  monotonic, so the value is not negative). The download either fails in \<open>client.Get\<close>,
  fails in \<open>io.Copy\<close>, or completes having copied some number of bytes in some number
  of nanoseconds.
\<close>

datatype dial_outcome = DialError | Connected nat

datatype download_outcome = GetError | CopyError | Downloaded nat nat

text \<open>\<open>Duration.Seconds\<close>: nanoseconds as a floating-point number of seconds.\<close>

definition Seconds :: "nat \<Rightarrow> real" where
  "Seconds d = real d / 1000000000"

definition testLatency :: "dial_outcome \<Rightarrow> real" where
  "testLatency r = (case r of DialError \<Rightarrow> - 1 | Connected d \<Rightarrow> Seconds d * 1000)"

text \<open>
  \<open>testDownloadSpeed\<close> discards the byte count that \<open>io.Copy\<close> returns and divides the
  constant \<open>float64(4500) / 1024\<close> by the elapsed seconds.
\<close>

definition testDownloadSpeed :: "download_outcome \<Rightarrow> float64" where
  "testDownloadSpeed r =
     (case r of
        GetError \<Rightarrow> Finite 0
      | CopyError \<Rightarrow> Finite 0
      | Downloaded copied d \<Rightarrow>
          (let duration = Seconds d; sizeKB = 4500 / 1024 in fdiv sizeKB duration))"

text \<open>
  The network as the probes of one run see it: goroutine number \<open>i\<close> (started for
  \<open>nodes ! i\<close>) gets \<open>dials i\<close> from its dial and \<open>downloads i\<close> from its download.
\<close>

record network =
  dials :: "nat \<Rightarrow> dial_outcome"
  downloads :: "nat \<Rightarrow> download_outcome"

text \<open>The body of the goroutine: the value it sends on the channel.\<close>

definition probe :: "network \<Rightarrow> nat \<Rightarrow> CDNNode \<Rightarrow> CDNNode" where
  "probe net i n =
     (let n1 = n\<lparr>Latency := testLatency (dials net i)\<rparr>
      in if Latency n1 > 0 then n1\<lparr>Speed := testDownloadSpeed (downloads net i)\<rparr> else n1)"

definition probeAll :: "network \<Rightarrow> CDNNode list \<Rightarrow> CDNNode list" where
  "probeAll net nodes = map (\<lambda>i. probe net i (nodes ! i)) [0..<length nodes]"

text \<open>One iteration of the loop \<open>for node := range results\<close>.\<close>

definition better :: "CDNNode \<Rightarrow> CDNNode \<Rightarrow> CDNNode" where
  "better bestNode node =
     (if Latency node > 0 \<and> Latency node < Latency bestNode then node else bestNode)"

definition reduceResults :: "CDNNode list \<Rightarrow> CDNNode" where
  "reduceResults received = foldl better (zeroNode\<lparr>Latency := 1000\<rparr>) received"

text \<open>
  The goroutines finish in an order the scheduler and the network decide. \<open>arrival\<close> is
  that order: the goroutine numbers in the order their values come out of the channel.
  In a run of the program it is a permutation of \<open>[0..<length nodes]\<close>.
\<close>

definition complete_order :: "nat list \<Rightarrow> nat \<Rightarrow> bool" where
  "complete_order arrival n = (mset arrival = mset [0..<n])"

definition findBestCDNNode :: "network \<Rightarrow> nat list \<Rightarrow> CDNNode list \<Rightarrow> CDNNode" where
  "findBestCDNNode net arrival nodes =
     (if length nodes = 0 then zeroNode\<lparr>IP := ''140.82.113.3''\<rparr>
      else reduceResults (map (\<lambda>i. probe net i (nodes ! i)) arrival))"

definition validateCDNNode :: "CDNNode \<Rightarrow> bool" where
  "validateCDNNode node = (Latency node > 0 \<and> Latency node < 500 \<and> exceeds (Speed node) 100)"

text \<open>
  Steps three and four of \<open>main\<close>: the best node is kept when it passes the gate;
  otherwise the fallback result is written and no node is chosen.
\<close>

definition selectBest :: "network \<Rightarrow> nat list \<Rightarrow> CDNNode list \<Rightarrow> CDNNode option" where
  "selectBest net arrival nodes =
     (let bestNode = findBestCDNNode net arrival nodes
      in if validateCDNNode bestNode then Some bestNode else None)"

section \<open>The fan-out and fan-in of \<open>findBestCDNNode\<close> as a transition system\<close>

text \<open>
  The goroutines, the \<open>sync.WaitGroup\<close>, the buffered channel \<open>results\<close> and the
  \<open>range\<close> loop, one event at a time. \<open>Send i\<close> is goroutine \<open>i\<close> running to its end:
  it probes its node, sends the value (the channel has room for one value per node, so a
  send never blocks) and calls \<open>wg.Done\<close>. \<open>Close\<close> is the closing goroutine, which
  gets past \<open>wg.Wait\<close> only when no probe is still running. \<open>Recv\<close> is one iteration of
  the loop in the caller. The loop ends when the channel is closed and empty. The state
  holds the probes still running, the content of the channel, whether it is closed, and
  \<open>bestNode\<close>; \<open>received\<close> keeps the values the loop has taken so far, which the
  program itself forgets.
\<close>

datatype event = Send nat | Close | Recv

record fanin =
  running :: "nat list"
  chan :: "CDNNode list"
  closed :: bool
  received :: "CDNNode list"
  bestNode :: CDNNode

definition start :: "CDNNode list \<Rightarrow> fanin" where
  "start nodes = \<lparr>running = [0..<length nodes], chan = [], closed = False, received = [],
                   bestNode = zeroNode\<lparr>Latency := 1000\<rparr>\<rparr>"

fun step :: "network \<Rightarrow> CDNNode list \<Rightarrow> event \<Rightarrow> fanin \<Rightarrow> fanin option" where
  "step net nodes (Send i) s =
     (if i \<in> set (running s)
      then Some (s\<lparr>running := removeAll i (running s), chan := chan s @ [probe net i (nodes ! i)]\<rparr>)
      else None)"
| "step net nodes Close s =
     (if running s = [] \<and> \<not> closed s then Some (s\<lparr>closed := True\<rparr>) else None)"
| "step net nodes Recv s =
     (case chan s of
        [] \<Rightarrow> None
      | node # rest \<Rightarrow>
          Some (s\<lparr>chan := rest, received := received s @ [node], bestNode := better (bestNode s) node\<rparr>))"

fun exec :: "network \<Rightarrow> CDNNode list \<Rightarrow> fanin \<Rightarrow> event list \<Rightarrow> fanin option" where
  "exec net nodes s [] = Some s"
| "exec net nodes s (e # es) =
     (case step net nodes e s of None \<Rightarrow> None | Some s' \<Rightarrow> exec net nodes s' es)"

definition finished :: "fanin \<Rightarrow> bool" where
  "finished s = (closed s \<and> chan s = [])"

text \<open>
  \<open>findBestCDNNode\<close> along a sequence of events: the value it returns when the events
  are a whole run, \<open>None\<close> when they are not (an event that cannot happen, or a loop that
  has not ended).
\<close>

definition findBestCDNNode_run :: "network \<Rightarrow> event list \<Rightarrow> CDNNode list \<Rightarrow> CDNNode option" where
  "findBestCDNNode_run net evs nodes =
     (if length nodes = 0 then Some (zeroNode\<lparr>IP := ''140.82.113.3''\<rparr>)
      else case exec net nodes (start nodes) evs of
             None \<Rightarrow> None
           | Some s \<Rightarrow> if finished s then Some (bestNode s) else None)"

text \<open>The run in which the probes finish in the order \<open>arrival\<close>.\<close>

definition schedule :: "nat list \<Rightarrow> event list" where
  "schedule arrival = map Send arrival @ [Close] @ replicate (length arrival) Recv"

text \<open>What holds in every state a run reaches, and the work a state still has to do.\<close>

definition fanin_inv :: "network \<Rightarrow> CDNNode list \<Rightarrow> fanin \<Rightarrow> bool" where
  "fanin_inv net nodes s =
     (\<exists>sent. distinct sent \<and> distinct (running s)
        \<and> set sent \<union> set (running s) = {..<length nodes}
        \<and> set sent \<inter> set (running s) = {}
        \<and> received s @ chan s = map (\<lambda>i. probe net i (nodes ! i)) sent
        \<and> bestNode s = foldl better (zeroNode\<lparr>Latency := 1000\<rparr>) (received s)
        \<and> (closed s \<longrightarrow> running s = []))"

definition load :: "fanin \<Rightarrow> nat" where
  "load s = 2 * length (running s) + length (chan s) + (if closed s then 0 else 1)"

subsection \<open>Concrete runs\<close>

definition twoNodes :: "CDNNode list" where
  "twoNodes = [zeroNode\<lparr>IP := ''1.2.3.4''\<rparr>, zeroNode\<lparr>IP := ''5.6.7.8''\<rparr>]"

text \<open>No candidate answers.\<close>

definition deadNet :: network where
  "deadNet = \<lparr>dials = (\<lambda>i. DialError), downloads = (\<lambda>i. GetError)\<rparr>"

text \<open>
  Node 0 answers in 50 ms and node 1 in 30 ms; both downloads are fast enough
  (about 549 KB/s and 220 KB/s).
\<close>

definition fastNet :: network where
  "fastNet = \<lparr>dials = (\<lambda>i. if i = 0 then Connected 50000000 else Connected 30000000),
              downloads = (\<lambda>i. if i = 0 then Downloaded 4500 8000000 else Downloaded 4500 20000000)\<rparr>"

text \<open>The same latencies, but the download from node 1 takes 80 ms (about 55 KB/s).\<close>

definition floorNet :: network where
  "floorNet = \<lparr>dials = (\<lambda>i. if i = 0 then Connected 50000000 else Connected 30000000),
               downloads = (\<lambda>i. if i = 0 then Downloaded 4500 8000000 else Downloaded 4500 80000000)\<rparr>"

text \<open>Both nodes answer in exactly 30 ms.\<close>

definition tieNet :: network where
  "tieNet = \<lparr>dials = (\<lambda>i. Connected 30000000), downloads = (\<lambda>i. Downloaded 4500 8000000)\<rparr>"

text \<open>A download that copies 9000 bytes in one second.\<close>

definition bigFileNet :: network where
  "bigFileNet = \<lparr>dials = (\<lambda>i. Connected 30000000), downloads = (\<lambda>i. Downloaded 9000 1000000000)\<rparr>"

section \<open>The hosts updater: Go strings\<close>

text \<open>
  \<open>strings.TrimSpace\<close>, \<open>strings.Fields\<close> and \<open>strings.ContainsAny\<close> work on the
  Unicode code points of a string, so the text the hosts updater handles is modelled as
  a list of code points (of valid UTF-8; two strings are equal when their code points
  are). \<open>str\<close> reads an ASCII literal.
\<close>

type_synonym rune = nat

type_synonym gostring = "rune list"

definition str :: "string \<Rightarrow> gostring" where
  "str s = map of_char s"

text \<open>
  \<open>unicode.IsSpace\<close>, the code points with the Unicode property White_Space: tab, line
  feed, vertical tab, form feed, carriage return, space, U+0085, U+00A0, U+1680, U+2000 to
  U+200A, U+2028, U+2029, U+202F, U+205F and U+3000.
\<close>

definition isSpace :: "rune \<Rightarrow> bool" where
  "isSpace r =
     (r \<in> set [9, 10, 11, 12, 13, 32, 133, 160, 5760, 8232, 8233, 8239, 8287, 12288]
      \<or> (8192 \<le> r \<and> r \<le> 8202))"

definition TrimSpace :: "gostring \<Rightarrow> gostring" where
  "TrimSpace s = rev (dropWhile isSpace (rev (dropWhile isSpace s)))"

text \<open>
  \<open>strings.Fields\<close>: the maximal runs of code points that are not white space.
  \<open>splitFields w s\<close> reads \<open>s\<close> with \<open>w\<close> the field read so far.
\<close>

fun splitFields :: "gostring \<Rightarrow> gostring \<Rightarrow> gostring list" where
  "splitFields w [] = (if w = [] then [] else [w])"
| "splitFields w (c # cs) =
     (if isSpace c then (if w = [] then splitFields [] cs else w # splitFields [] cs)
      else splitFields (w @ [c]) cs)"

definition Fields :: "gostring \<Rightarrow> gostring list" where
  "Fields s = splitFields [] s"

fun Join :: "gostring list \<Rightarrow> gostring \<Rightarrow> gostring" where
  "Join [] sep = []"
| "Join [x] sep = x"
| "Join (x # y # ys) sep = x @ sep @ Join (y # ys) sep"

definition HasPrefix :: "gostring \<Rightarrow> gostring \<Rightarrow> bool" where
  "HasPrefix s p = (take (length p) s = p)"

text \<open>\<open>strings.ContainsAny\<close>: some code point of \<open>s\<close> is one of the code points of \<open>chars\<close>.\<close>

fun ContainsAny :: "gostring \<Rightarrow> gostring \<Rightarrow> bool" where
  "ContainsAny [] chars = False"
| "ContainsAny (c # s) chars = (if c \<in> set chars then True else ContainsAny s chars)"

section \<open>The hosts updater: reading and writing the file\<close>

text \<open>
  \<open>bufio.Scanner\<close> with its default split function \<open>ScanLines\<close>: the text is cut at
  every line feed, an empty last piece is no line, and one carriage return at the end of
  a line is dropped. A line of \<open>MaxScanTokenSize\<close> bytes or more does not fit in the
  scanner's buffer: there \<open>Scan\<close> returns false, and since the loop does not look at
  \<open>scanner.Err()\<close>, that line and all that follow it are not read.
\<close>

definition utf8Len :: "rune \<Rightarrow> nat" where
  "utf8Len r = (if r < 128 then 1 else if r < 2048 then 2 else if r < 65536 then 3 else 4)"

definition byteLen :: "gostring \<Rightarrow> nat" where
  "byteLen s = sum_list (map utf8Len s)"

definition MaxScanTokenSize :: nat where
  "MaxScanTokenSize = 64 * 1024"

fun splitLines :: "gostring \<Rightarrow> gostring \<Rightarrow> gostring list" where
  "splitLines cur [] = (if cur = [] then [] else [cur])"
| "splitLines cur (c # cs) =
     (if c = 10 then cur # splitLines [] cs else splitLines (cur @ [c]) cs)"

definition dropCR :: "gostring \<Rightarrow> gostring" where
  "dropCR s = (if s \<noteq> [] \<and> last s = 13 then butlast s else s)"

definition scanLines :: "gostring \<Rightarrow> gostring list" where
  "scanLines data =
     map dropCR (takeWhile (\<lambda>raw. byteLen raw < MaxScanTokenSize) (splitLines [] data))"

text \<open>\<open>fmt.Fprintln(writer, line)\<close> for every line, then \<open>writer.Flush()\<close>.\<close>

definition writeLines :: "gostring list \<Rightarrow> gostring" where
  "writeLines ls = concat (map (\<lambda>line. line @ [10]) ls)"

text \<open>
  The files the program can see. \<open>os.Open\<close> fails on a path that has no file, and
  \<open>os.Create\<close> fails on a path in \<open>readonly\<close>.
\<close>

record filesystem =
  files :: "string \<rightharpoonup> gostring"
  readonly :: "string set"

section \<open>The hosts updater: \<open>updateHosts\<close>\<close>

datatype hosts_error = UnsupportedOS string | OpenError string | CreateError string

text \<open>The three messages that \<open>updateHosts\<close> prints: updated, already up to date, added.\<close>

datatype log_entry = Updated gostring gostring | UpToDate gostring | Added gostring gostring

definition hostsPath :: "string \<Rightarrow> string option" where
  "hostsPath goos =
     (if goos = ''windows''
      then Some (''C:'' @ [CHR 0x5C] @ ''Windows'' @ [CHR 0x5C] @ ''System32'' @ [CHR 0x5C]
                 @ ''drivers'' @ [CHR 0x5C] @ ''etc'' @ [CHR 0x5C] @ ''hosts'')
      else if goos = ''linux'' \<or> goos = ''darwin'' then Some ''/etc/hosts''
      else None)"

text \<open>
  The inner loop \<open>for i := 1; i < len(fields); i++\<close>: \<open>rest\<close> is what is left of
  \<open>fields[1:]\<close>. The loop breaks at the first field that is a key of \<open>ipMap\<close>, with
  the line to write, the domain to mark and the message printed; it runs off the end
  (\<open>None\<close>) when no field is a key.
\<close>

fun updateLine ::
  "(gostring \<rightharpoonup> gostring) \<Rightarrow> gostring \<Rightarrow> gostring list \<Rightarrow> gostring list
     \<Rightarrow> (gostring \<times> gostring \<times> log_entry) option" where
  "updateLine ipMap line flds [] = None"
| "updateLine ipMap line flds (domain # rest) =
     (case ipMap domain of
        Some newIP \<Rightarrow>
          if hd flds \<noteq> newIP
          then Some (newIP @ str '' '' @ Join (tl flds) (str '' ''), domain, Updated domain newIP)
          else Some (line, domain, UpToDate domain)
      | None \<Rightarrow> updateLine ipMap line flds rest)"

record hosts_scan =
  newLines :: "gostring list"
  existingDomains :: "gostring set"
  printed :: "log_entry list"

text \<open>The body of the loop \<open>for scanner.Scan()\<close>, for the line \<open>scanner.Text()\<close>.\<close>

definition scanLine :: "(gostring \<rightharpoonup> gostring) \<Rightarrow> hosts_scan \<Rightarrow> gostring \<Rightarrow> hosts_scan" where
  "scanLine ipMap st raw =
     (let line = TrimSpace raw in
      if HasPrefix line (str ''#'') then st\<lparr>newLines := newLines st @ [line]\<rparr>
      else
        let flds = Fields line in
        if length flds < 2 then st\<lparr>newLines := newLines st @ [line]\<rparr>
        else
          case updateLine ipMap line flds (tl flds) of
            Some (newLine, domain, msg) \<Rightarrow>
              st\<lparr>newLines := newLines st @ [newLine],
                 existingDomains := insert domain (existingDomains st),
                 printed := printed st @ [msg]\<rparr>
          | None \<Rightarrow> st\<lparr>newLines := newLines st @ [line]\<rparr>)"

text \<open>
  The loop \<open>for domain, ip := range ipMap\<close>. Go visits the keys of a map in an order
  that is not specified; \<open>keys\<close> is the order of this run.
\<close>

fun addMissing :: "(gostring \<rightharpoonup> gostring) \<Rightarrow> gostring list \<Rightarrow> hosts_scan \<Rightarrow> hosts_scan" where
  "addMissing ipMap [] st = st"
| "addMissing ipMap (domain # rest) st =
     (case ipMap domain of
        None \<Rightarrow> addMissing ipMap rest st
      | Some ip \<Rightarrow>
          if domain \<notin> existingDomains st
          then addMissing ipMap rest
                 (st\<lparr>newLines := newLines st @ [ip @ str '' '' @ domain],
                     printed := printed st @ [Added domain ip]\<rparr>)
          else addMissing ipMap rest st)"

definition key_order :: "gostring list \<Rightarrow> (gostring \<rightharpoonup> gostring) \<Rightarrow> bool" where
  "key_order keys ipMap = (distinct keys \<and> set keys = dom ipMap)"

text \<open>Both loops, from the lines read to the lines to write.\<close>

definition rewriteLines ::
  "(gostring \<rightharpoonup> gostring) \<Rightarrow> gostring list \<Rightarrow> gostring list \<Rightarrow> hosts_scan" where
  "rewriteLines ipMap keys ls =
     addMissing ipMap keys
       (foldl (scanLine ipMap) \<lparr>newLines = [], existingDomains = {}, printed = []\<rparr> ls)"

text \<open>
  \<open>updateHosts\<close> returns its error (\<open>None\<close> for \<open>nil\<close>), the files it leaves and what
  it printed. The messages are printed before \<open>os.Create\<close> is called.
\<close>

definition updateHosts ::
  "string \<Rightarrow> filesystem \<Rightarrow> (gostring \<rightharpoonup> gostring) \<Rightarrow> gostring list
     \<Rightarrow> hosts_error option \<times> filesystem \<times> log_entry list" where
  "updateHosts goos fs ipMap keys =
     (case hostsPath goos of
        None \<Rightarrow> (Some (UnsupportedOS goos), fs, [])
      | Some path \<Rightarrow>
          (case files fs path of
             None \<Rightarrow> (Some (OpenError path), fs, [])
           | Some data \<Rightarrow>
               let st = rewriteLines ipMap keys (scanLines data) in
               if path \<in> readonly fs then (Some (CreateError path), fs, printed st)
               else (None, fs\<lparr>files := (files fs)(path \<mapsto> writeLines (newLines st))\<rparr>, printed st)))"

text \<open>The text of the hosts file, if the system has one.\<close>

definition hostsFile :: "string \<Rightarrow> filesystem \<Rightarrow> gostring option" where
  "hostsFile goos fs = (case hostsPath goos of None \<Rightarrow> None | Some path \<Rightarrow> files fs path)"

text \<open>
  A mapping from domains to addresses: every key and every value is one word (not empty,
  no white space), and no value starts with \<open>#\<close>. The mapping that \<open>main\<close> builds is
  one: its keys are the four literal domains and its values have passed \<open>net.ParseIP\<close>.
\<close>

definition token :: "gostring \<Rightarrow> bool" where
  "token t = (t \<noteq> [] \<and> (\<forall>c \<in> set t. \<not> isSpace c))"

definition address_map :: "(gostring \<rightharpoonup> gostring) \<Rightarrow> bool" where
  "address_map ipMap =
     (\<forall>domain ip. ipMap domain = Some ip \<longrightarrow> token domain \<and> token ip \<and> hd ip \<noteq> 35)"

text \<open>The domain that a line marks as existing, if it marks one.\<close>

definition marks :: "(gostring \<rightharpoonup> gostring) \<Rightarrow> gostring \<Rightarrow> gostring option" where
  "marks ipMap raw =
     (let line = TrimSpace raw in
      if HasPrefix line (str ''#'') \<or> length (Fields line) < 2 then None
      else find (\<lambda>domain. ipMap domain \<noteq> None) (tl (Fields line)))"

text \<open>
  The two loops described line by line, for the proofs: a text without white space
  at either end, the line written for a line read, the message printed for it, and the
  domains that the second loop adds when \<open>existing\<close> are the domains marked.
\<close>

definition trimmed :: "gostring \<Rightarrow> bool" where
  "trimmed s = (s = [] \<or> (\<not> isSpace (hd s) \<and> \<not> isSpace (last s)))"

definition rewritten :: "(gostring \<rightharpoonup> gostring) \<Rightarrow> gostring \<Rightarrow> gostring" where
  "rewritten ipMap raw =
     (case marks ipMap raw of
        None \<Rightarrow> TrimSpace raw
      | Some domain \<Rightarrow>
          (case ipMap domain of
             None \<Rightarrow> TrimSpace raw
           | Some newIP \<Rightarrow>
               if hd (Fields (TrimSpace raw)) \<noteq> newIP
               then newIP @ str '' '' @ Join (tl (Fields (TrimSpace raw))) (str '' '')
               else TrimSpace raw))"

definition message :: "(gostring \<rightharpoonup> gostring) \<Rightarrow> gostring \<Rightarrow> log_entry list" where
  "message ipMap raw =
     (case marks ipMap raw of
        None \<Rightarrow> []
      | Some domain \<Rightarrow>
          (case ipMap domain of
             None \<Rightarrow> []
           | Some newIP \<Rightarrow>
               if hd (Fields (TrimSpace raw)) \<noteq> newIP then [Updated domain newIP]
               else [UpToDate domain]))"

definition missing :: "(gostring \<rightharpoonup> gostring) \<Rightarrow> gostring set \<Rightarrow> gostring list \<Rightarrow> gostring list" where
  "missing ipMap existing keys = filter (\<lambda>domain. ipMap domain \<noteq> None \<and> domain \<notin> existing) keys"

definition entry :: "(gostring \<rightharpoonup> gostring) \<Rightarrow> gostring \<Rightarrow> gostring" where
  "entry ipMap domain = the (ipMap domain) @ str '' '' @ domain"


section \<open>The hosts updater: \<open>findFastestIP\<close> and \<open>main\<close>\<close>

text \<open>One element of \<open>PingResult.Data.NodeList\<close> (\<open>NodeIP\<close> is the field \<open>IP\<close>).\<close>

record PingNode =
  NodeName :: gostring
  NodeIP :: gostring
  Timeout :: int
  Time :: "int list"
  AvgTime :: real

datatype lookup_error = RequestError | ReadError | JSONError | NoDomesticIP | InvalidIP gostring

text \<open>
  The string of the filter, as its ten code points: the five city names Beijing
  (U+5317 U+4EAC), Shanghai (U+4E0A U+6D77), Guangzhou (U+5E7F U+5DDE), Shenzhen
  (U+6DF1 U+5733) and Chengdu (U+6210 U+90FD).
\<close>

definition domesticChars :: gostring where
  "domesticChars = [21271, 20140, 19978, 28023, 24191, 24030, 28145, 22323, 25104, 37117]"

text \<open>The first loop: the delays of the nodes that pass the filter, by address.\<close>

fun collectDelays :: "PingNode list \<Rightarrow> (gostring \<rightharpoonup> real list) \<Rightarrow> (gostring \<rightharpoonup> real list)" where
  "collectDelays [] ips = ips"
| "collectDelays (node # rest) ips =
     (if Timeout node > 0 then collectDelays rest ips
      else if ContainsAny (NodeName node) domesticChars
      then collectDelays rest
             (ips(NodeIP node \<mapsto> (case ips (NodeIP node) of None \<Rightarrow> [] | Some ds \<Rightarrow> ds) @ [AvgTime node]))
      else collectDelays rest ips)"

text \<open>
  The second loop, \<open>for ip, delays := range ips\<close>, over the keys in the order \<open>order\<close>
  of this run, with \<open>(bestIP, minAvg)\<close> as its state. (The first loop never stores an
  empty list; for one, \<open>sum / float64(len(delays))\<close> would be NaN, which is not less than
  \<open>minAvg\<close>.)
\<close>

fun pickFastest ::
  "(gostring \<rightharpoonup> real list) \<Rightarrow> gostring list \<Rightarrow> gostring \<times> real \<Rightarrow> gostring \<times> real" where
  "pickFastest ips [] (bestIP, minAvg) = (bestIP, minAvg)"
| "pickFastest ips (ip # rest) (bestIP, minAvg) =
     (case ips ip of
        None \<Rightarrow> pickFastest ips rest (bestIP, minAvg)
      | Some delays \<Rightarrow>
          if delays = [] then pickFastest ips rest (bestIP, minAvg)
          else
            let avg = sum_list delays / real (length delays) in
            if avg < minAvg then pickFastest ips rest (ip, avg)
            else pickFastest ips rest (bestIP, minAvg))"

text \<open>\<open>ParseIP s\<close> stands for \<open>net.ParseIP(s) != nil\<close>.\<close>

definition findFastestIP ::
  "(gostring \<Rightarrow> bool) \<Rightarrow> gostring list \<Rightarrow> PingNode list \<Rightarrow> gostring \<Rightarrow> lookup_error + gostring" where
  "findFastestIP ParseIP order nodeList domain =
     (let ips = collectDelays nodeList Map.empty;
          (bestIP, minAvg) = pickFastest ips order ([], 1000)
      in if bestIP = [] then Inl NoDomesticIP
         else if \<not> ParseIP bestIP then Inl (InvalidIP bestIP)
         else Inr bestIP)"

text \<open>What the request of \<open>getBestIP\<close> came back with.\<close>

datatype lookup = RequestFailed | ReadFailed | BadJSON | Parsed "PingNode list"

definition getBestIP ::
  "(gostring \<Rightarrow> bool) \<Rightarrow> gostring list \<Rightarrow> lookup \<Rightarrow> gostring \<Rightarrow> lookup_error + gostring" where
  "getBestIP ParseIP order reply domain =
     (case reply of
        RequestFailed \<Rightarrow> Inl RequestError
      | ReadFailed \<Rightarrow> Inl ReadError
      | BadJSON \<Rightarrow> Inl JSONError
      | Parsed nodeList \<Rightarrow> findFastestIP ParseIP order nodeList domain)"

text \<open>
  The first loop of \<open>main\<close>: the mapping from each domain to its best address. A domain
  whose lookup returns an error gets a message and no entry.
\<close>

fun bestIPs ::
  "(gostring \<Rightarrow> bool) \<Rightarrow> (gostring \<Rightarrow> gostring list) \<Rightarrow> (gostring \<Rightarrow> lookup) \<Rightarrow> gostring list
     \<Rightarrow> (gostring \<rightharpoonup> gostring) \<Rightarrow> (gostring \<rightharpoonup> gostring)" where
  "bestIPs ParseIP orders replies [] ipMap = ipMap"
| "bestIPs ParseIP orders replies (domain # rest) ipMap =
     (case getBestIP ParseIP (orders domain) (replies domain) domain of
        Inr ip \<Rightarrow> bestIPs ParseIP orders replies rest (ipMap(domain \<mapsto> ip))
      | Inl err \<Rightarrow> bestIPs ParseIP orders replies rest ipMap)"

definition domains :: "gostring list" where
  "domains = [str ''github.com'', str ''raw.githubusercontent.com'',
              str ''github.global.ssl.fastly.net'', str ''assets-cdn.github.com'']"

section \<open>Concrete hosts files and lookups\<close>

definition sampleMap :: "gostring \<rightharpoonup> gostring" where
  "sampleMap = [str ''github.com'' \<mapsto> str ''140.82.112.3'',
                str ''assets-cdn.github.com'' \<mapsto> str ''185.199.108.153'']"

definition sampleKeys :: "gostring list" where
  "sampleKeys = [str ''github.com'', str ''assets-cdn.github.com'']"

definition hostsWith :: "gostring \<Rightarrow> filesystem" where
  "hostsWith data = \<lparr>files = [''/etc/hosts'' \<mapsto> data], readonly = {}\<rparr>"

text \<open>
  A comment, the loopback line, and one line for \<open>github.com\<close> with an old address.
\<close>

definition sampleHosts :: gostring where
  "sampleHosts = str ''# local'' @ [10] @ str ''127.0.0.1 localhost'' @ [10]
                 @ str ''1.1.1.1 github.com www.github.com'' @ [10]"

definition sampleHostsUpdated :: gostring where
  "sampleHostsUpdated = str ''# local'' @ [10] @ str ''127.0.0.1 localhost'' @ [10]
                 @ str ''140.82.112.3 github.com www.github.com'' @ [10]
                 @ str ''185.199.108.153 assets-cdn.github.com'' @ [10]"

text \<open>
  A comment that ends in a space, and a line of one field after a tab and before a
  carriage return.
\<close>

definition paddedHosts :: gostring where
  "paddedHosts = str ''# local '' @ [10] @ [9] @ str ''localhost'' @ [13, 10]"

text \<open>Two hostnames on one line, both in the mapping, and a line of its own for the second.\<close>

definition abMap :: "gostring \<rightharpoonup> gostring" where
  "abMap = [str ''a'' \<mapsto> str ''2.2.2.2'', str ''b'' \<mapsto> str ''3.3.3.3'']"

definition sharedLine :: gostring where
  "sharedLine = str ''1.1.1.1 a b'' @ [10]"

definition sharedLineAndOwn :: gostring where
  "sharedLineAndOwn = str ''1.1.1.1 a b'' @ [10] @ str ''3.3.3.3 b'' @ [10]"





text \<open>
  A reply with one node in Tokyo, and one with a node whose name is Beihai (U+5317
  U+6D77): the first character of Beijing and the second of Shanghai.
\<close>

definition tokyoReply :: "PingNode list" where
  "tokyoReply = [\<lparr>NodeName = str ''Tokyo'', NodeIP = str ''20.27.177.113'', Timeout = 0,
                  Time = [30, 31], AvgTime = 30.5\<rparr>]"

definition beihaiReply :: "PingNode list" where
  "beihaiReply = [\<lparr>NodeName = [21271, 28023], NodeIP = str ''20.205.243.166'', Timeout = 0,
                   Time = [40, 42], AvgTime = 41\<rparr>]"

section \<open>Properties of the selection\<close>

lemma better_cases:
  "better b n = b \<or> (better b n = n \<and> 0 < Latency n \<and> Latency n < Latency b)"
  by (simp add: better_def)

lemma foldl_better_cases:
  "foldl better b rs = b \<or>
   (foldl better b rs \<in> set rs \<and> 0 < Latency (foldl better b rs)
      \<and> Latency (foldl better b rs) < Latency b)"
proof (induction rs arbitrary: b)
  case Nil
  show ?case by simp
next
  case (Cons r rs)
  from better_cases [of b r] show ?case
  proof
    assume "better b r = b"
    with Cons.IH [of b] show ?thesis by auto
  next
    assume h: "better b r = r \<and> 0 < Latency r \<and> Latency r < Latency b"
    with Cons.IH [of r] show ?thesis by auto
  qed
qed

lemma foldl_better_le: "Latency (foldl better b rs) \<le> Latency b"
  using foldl_better_cases [of b rs] by auto

lemma foldl_better_min:
  "r \<in> set rs \<Longrightarrow> 0 < Latency r \<Longrightarrow> Latency (foldl better b rs) \<le> Latency r"
proof (induction rs arbitrary: b)
  case Nil
  then show ?case by simp
next
  case (Cons x xs)
  show ?case
  proof (cases "r = x")
    case True
    have "Latency (foldl better (better b x) xs) \<le> Latency (better b x)"
      by (rule foldl_better_le)
    also have "Latency (better b x) \<le> Latency r"
      using True Cons.prems(2) by (simp add: better_def)
    finally show ?thesis by simp
  next
    case False
    with Cons.prems have "r \<in> set xs" by simp
    from Cons.IH [OF this Cons.prems(2)] show ?thesis by simp
  qed
qed

lemma foldl_better_unreachable:
  "\<forall>r \<in> set rs. Latency r \<le> 0 \<Longrightarrow> foldl better b rs = b"
  by (induction rs arbitrary: b) (auto simp: better_def)

lemma reduceResults_cases:
  "reduceResults rs = zeroNode\<lparr>Latency := 1000\<rparr> \<or>
   (reduceResults rs \<in> set rs \<and> 0 < Latency (reduceResults rs) \<and> Latency (reduceResults rs) < 1000)"
  using foldl_better_cases [of "zeroNode\<lparr>Latency := 1000\<rparr>" rs]
  by (simp add: reduceResults_def)

lemma reduceResults_min:
  "r \<in> set rs \<Longrightarrow> 0 < Latency r \<Longrightarrow> Latency (reduceResults rs) \<le> Latency r"
  unfolding reduceResults_def by (rule foldl_better_min)

lemma reduceResults_reachable:
  assumes "r \<in> set rs" "0 < Latency r" "Latency r < 1000"
  shows "reduceResults rs \<in> set rs \<and> 0 < Latency (reduceResults rs)"
proof -
  from reduceResults_min [OF assms(1,2)] assms(3)
  have "Latency (reduceResults rs) < 1000" by simp
  then have "reduceResults rs \<noteq> zeroNode\<lparr>Latency := 1000\<rparr>" by auto
  with reduceResults_cases [of rs] show ?thesis by blast
qed

text \<open>The values the loop takes out of the channel are the probes' results, in some order.\<close>

lemma mset_received:
  "complete_order arrival (length nodes) \<Longrightarrow>
   mset (map (\<lambda>i. probe net i (nodes ! i)) arrival) = mset (probeAll net nodes)"
proof -
  assume "complete_order arrival (length nodes)"
  then have m: "mset arrival = mset [0..<length nodes]" by (simp only: complete_order_def)
  have "mset (map (\<lambda>i. probe net i (nodes ! i)) arrival)
      = image_mset (\<lambda>i. probe net i (nodes ! i)) (mset arrival)" by (simp only: mset_map)
  also have "\<dots> = image_mset (\<lambda>i. probe net i (nodes ! i)) (mset [0..<length nodes])"
    by (simp only: m)
  also have "\<dots> = mset (probeAll net nodes)" by (simp only: mset_map probeAll_def)
  finally show ?thesis .
qed

lemma set_received:
  "complete_order arrival (length nodes) \<Longrightarrow>
   set (map (\<lambda>i. probe net i (nodes ! i)) arrival) = set (probeAll net nodes)"
  by (rule mset_eq_setD) (rule mset_received)

lemma probe_DialError: "dials net i = DialError \<Longrightarrow> Latency (probe net i n) = - 1"
  by (simp add: probe_def testLatency_def)

lemmas eval_defs = selectBest_def findBestCDNNode_def reduceResults_def better_def probe_def
  testLatency_def testDownloadSpeed_def fdiv_def Seconds_def validateCDNNode_def zeroNode_def
  twoNodes_def

lemma complete_order_twoNodes:
  "complete_order [0, 1] (length twoNodes)" "complete_order [1, 0] (length twoNodes)"
  by (simp_all add: complete_order_def twoNodes_def upt_rec)

lemma probeAll_twoNodes:
  "probeAll net twoNodes = [probe net 0 (twoNodes ! 0), probe net 1 (twoNodes ! 1)]"
  by (simp add: probeAll_def twoNodes_def upt_rec)

subsection \<open>C2: nothing to choose from\<close>

text \<open>
  C2. For an empty list of candidates, and for a list in which every dial fails, the
  selection chooses nothing: \<open>selectBest\<close> is \<open>None\<close>. (The model has no error
  value for \<open>findBestCDNNode\<close> or \<open>validateCDNNode\<close>, as the code has none.)
\<close>

theorem selectBest_absent:
  assumes "nodes = [] \<or>
    (complete_order arrival (length nodes) \<and> (\<forall>i<length nodes. dials net i = DialError))"
  shows "selectBest net arrival nodes = None"
  using assms
proof
  assume "nodes = []"
  then show ?thesis
    by (simp add: selectBest_def findBestCDNNode_def validateCDNNode_def zeroNode_def)
next
  assume h: "complete_order arrival (length nodes) \<and> (\<forall>i<length nodes. dials net i = DialError)"
  let ?rs = "map (\<lambda>i. probe net i (nodes ! i)) arrival"
  have "\<forall>r \<in> set ?rs. Latency r \<le> 0"
  proof
    fix r assume "r \<in> set ?rs"
    with h have "r \<in> set (probeAll net nodes)" by (simp only: set_received)
    then obtain i where "i < length nodes" "r = probe net i (nodes ! i)"
      by (auto simp: probeAll_def)
    with h show "Latency r \<le> 0" by (simp add: probe_DialError)
  qed
  then have "reduceResults ?rs = zeroNode\<lparr>Latency := 1000\<rparr>"
    unfolding reduceResults_def by (rule foldl_better_unreachable)
  then show ?thesis
    by (simp add: selectBest_def findBestCDNNode_def validateCDNNode_def zeroNode_def)
qed

text \<open>The empty list, and two candidates that both refuse the connection.\<close>

theorem selectBest_absent_witness:
  "selectBest deadNet [] [] = None \<and> selectBest deadNet [1, 0] twoNodes = None"
proof -
  have e: "([]::CDNNode list) = [] \<or>
    (complete_order [] (length ([]::CDNNode list)) \<and>
     (\<forall>i<length ([]::CDNNode list). dials deadNet i = DialError))"
    by simp
  have u: "twoNodes = [] \<or>
    (complete_order [1, 0] (length twoNodes) \<and> (\<forall>i<length twoNodes. dials deadNet i = DialError))"
    using complete_order_twoNodes(2) by (simp add: deadNet_def)
  from selectBest_absent [OF e] selectBest_absent [OF u] show ?thesis by simp
qed

subsection \<open>C1: the chosen node\<close>

text \<open>
  C1 says that whenever some candidate passes the thresholds, the valid candidate of
  lowest latency is chosen. The code picks the lowest latency among all the reachable
  candidates first and applies the thresholds to that one node only. In \<open>floorNet\<close>
  node 0 is valid, node 1 is faster but its download is too slow, and nothing is chosen,
  in whichever order the two probes finish.
\<close>

theorem selectBest_floor_counterexample:
  "validateCDNNode (probe floorNet 0 (twoNodes ! 0)) \<and>
   Latency (probe floorNet 1 (twoNodes ! 1)) < Latency (probe floorNet 0 (twoNodes ! 0)) \<and>
   \<not> exceeds (Speed (probe floorNet 1 (twoNodes ! 1))) 100 \<and>
   selectBest floorNet [0, 1] twoNodes = None \<and>
   selectBest floorNet [1, 0] twoNodes = None"
  by (simp add: eval_defs floorNet_def)

lemma selectBest_valid_minimum:
  assumes ord: "complete_order arrival (length nodes)"
    and v: "v \<in> set (probeAll net nodes)" "validateCDNNode v"
    and gap: "\<forall>r \<in> set (probeAll net nodes).
               0 < Latency r \<and> \<not> validateCDNNode r \<longrightarrow> Latency v < Latency r"
  shows "\<exists>c. selectBest net arrival nodes = Some c \<and> c \<in> set (probeAll net nodes)
           \<and> validateCDNNode c
           \<and> (\<forall>r \<in> set (probeAll net nodes). validateCDNNode r \<longrightarrow> Latency c \<le> Latency r)"
proof -
  let ?rs = "map (\<lambda>i. probe net i (nodes ! i)) arrival"
  let ?c = "reduceResults ?rs"
  have rs: "set ?rs = set (probeAll net nodes)"
    using ord by (rule set_received)
  from v have ne: "length nodes \<noteq> 0" by (auto simp: probeAll_def)
  then have best: "findBestCDNNode net arrival nodes = ?c"
    by (simp add: findBestCDNNode_def)
  from v have lv: "0 < Latency v" "Latency v < 1000"
    by (simp_all add: validateCDNNode_def)
  from v(1) rs have vin: "v \<in> set ?rs" by simp
  from reduceResults_reachable [OF vin lv]
  have c: "?c \<in> set (probeAll net nodes)" "0 < Latency ?c" using rs by simp_all
  have le: "Latency ?c \<le> Latency v" using vin lv(1) by (rule reduceResults_min)
  have valid: "validateCDNNode ?c"
  proof (rule ccontr)
    assume "\<not> validateCDNNode ?c"
    with gap c have "Latency v < Latency ?c" by blast
    with le show False by simp
  qed
  have "\<forall>r \<in> set (probeAll net nodes). validateCDNNode r \<longrightarrow> Latency ?c \<le> Latency r"
  proof (intro ballI impI)
    fix r assume "r \<in> set (probeAll net nodes)" "validateCDNNode r"
    then have "r \<in> set ?rs" "0 < Latency r" using rs by (simp_all add: validateCDNNode_def)
    then show "Latency ?c \<le> Latency r" by (rule reduceResults_min)
  qed
  with c valid best show ?thesis by (simp add: selectBest_def)
qed

lemma selectBest_invalid_minimum:
  assumes ord: "complete_order arrival (length nodes)"
    and r: "r \<in> set (probeAll net nodes)" "0 < Latency r" "\<not> validateCDNNode r"
    and below: "\<forall>s \<in> set (probeAll net nodes). validateCDNNode s \<longrightarrow> Latency r < Latency s"
  shows "selectBest net arrival nodes = None"
proof -
  let ?rs = "map (\<lambda>i. probe net i (nodes ! i)) arrival"
  let ?c = "reduceResults ?rs"
  have rs: "set ?rs = set (probeAll net nodes)"
    using ord by (rule set_received)
  from r(1) have "length nodes \<noteq> 0" by (auto simp: probeAll_def)
  then have best: "findBestCDNNode net arrival nodes = ?c"
    by (simp add: findBestCDNNode_def)
  have "\<not> validateCDNNode ?c"
  proof
    assume valid: "validateCDNNode ?c"
    then have "?c \<noteq> zeroNode\<lparr>Latency := 1000\<rparr>" by (auto simp: validateCDNNode_def)
    with reduceResults_cases [of ?rs] rs have "?c \<in> set (probeAll net nodes)" by auto
    with below valid have "Latency r < Latency ?c" by blast
    moreover from r(1,2) rs have "Latency ?c \<le> Latency r" by (intro reduceResults_min) simp_all
    ultimately show False by simp
  qed
  with best show ?thesis by (simp add: selectBest_def)
qed

text \<open>
  C1, amended. If some candidate \<open>v\<close> passes the thresholds and every reachable
  candidate that fails them has a latency strictly above that of \<open>v\<close>, then a node is
  chosen, it passes the thresholds, and no valid candidate has a lower latency. If a
  reachable candidate that fails the thresholds has a latency strictly below that of
  every valid candidate, no node is chosen.
\<close>

theorem selectBest_min_latency:
  assumes ord: "complete_order arrival (length nodes)"
  shows "(v \<in> set (probeAll net nodes) \<and> validateCDNNode v
          \<and> (\<forall>r \<in> set (probeAll net nodes).
                0 < Latency r \<and> \<not> validateCDNNode r \<longrightarrow> Latency v < Latency r)
          \<longrightarrow> (\<exists>c. selectBest net arrival nodes = Some c \<and> c \<in> set (probeAll net nodes)
                 \<and> validateCDNNode c
                 \<and> (\<forall>r \<in> set (probeAll net nodes). validateCDNNode r \<longrightarrow> Latency c \<le> Latency r)))
       \<and> (r \<in> set (probeAll net nodes) \<and> 0 < Latency r \<and> \<not> validateCDNNode r
          \<and> (\<forall>s \<in> set (probeAll net nodes). validateCDNNode s \<longrightarrow> Latency r < Latency s)
          \<longrightarrow> selectBest net arrival nodes = None)"
  using selectBest_valid_minimum [OF ord, of v net] selectBest_invalid_minimum [OF ord, of r net]
  by blast

text \<open>
  Both candidates valid: the one with the lower latency, \<open>5.6.7.8\<close>, is chosen. The
  candidate with the lower latency too slow: none is chosen.
\<close>

theorem selectBest_min_latency_witness:
  "complete_order [0, 1] (length twoNodes) \<and>
   validateCDNNode (probe fastNet 0 (twoNodes ! 0)) \<and>
   validateCDNNode (probe fastNet 1 (twoNodes ! 1)) \<and>
   selectBest fastNet [0, 1] twoNodes = Some (probe fastNet 1 (twoNodes ! 1)) \<and>
   IP (probe fastNet 1 (twoNodes ! 1)) = ''5.6.7.8'' \<and>
   validateCDNNode (probe floorNet 0 (twoNodes ! 0)) \<and>
   \<not> validateCDNNode (probe floorNet 1 (twoNodes ! 1)) \<and>
   Latency (probe floorNet 1 (twoNodes ! 1)) < Latency (probe floorNet 0 (twoNodes ! 0)) \<and>
   selectBest floorNet [0, 1] twoNodes = None"
proof -
  let ?v = "probe fastNet 1 (twoNodes ! 1)"
  let ?r = "probe floorNet 1 (twoNodes ! 1)"
  note ord = complete_order_twoNodes(1)
  have v0: "validateCDNNode (probe fastNet 0 (twoNodes ! 0))"
    and v: "validateCDNNode ?v" and ip: "IP ?v = ''5.6.7.8''"
    by (simp_all add: eval_defs fastNet_def)
  have vin: "?v \<in> set (probeAll fastNet twoNodes)" by (simp add: probeAll_twoNodes)
  have gap: "\<forall>r \<in> set (probeAll fastNet twoNodes).
               0 < Latency r \<and> \<not> validateCDNNode r \<longrightarrow> Latency ?v < Latency r"
    using v0 v by (simp add: probeAll_twoNodes)
  from selectBest_min_latency [OF ord, of ?v fastNet] vin v gap
  obtain c where c: "selectBest fastNet [0, 1] twoNodes = Some c" by blast
  have chosen: "selectBest fastNet [0, 1] twoNodes = Some ?v"
    by (simp add: eval_defs fastNet_def)
  have w0: "validateCDNNode (probe floorNet 0 (twoNodes ! 0))"
    and w1: "\<not> validateCDNNode ?r" and pos: "0 < Latency ?r"
    and lt: "Latency ?r < Latency (probe floorNet 0 (twoNodes ! 0))"
    by (simp_all add: eval_defs floorNet_def)
  have rin: "?r \<in> set (probeAll floorNet twoNodes)" by (simp add: probeAll_twoNodes)
  have below: "\<forall>s \<in> set (probeAll floorNet twoNodes). validateCDNNode s \<longrightarrow> Latency ?r < Latency s"
    using w1 lt by (simp add: probeAll_twoNodes)
  from selectBest_min_latency [OF ord, of _ floorNet ?r] rin pos w1 below
  have "selectBest floorNet [0, 1] twoNodes = None" by blast
  with ord v0 v chosen ip w0 w1 lt show ?thesis by simp
qed

subsection \<open>C4: ties\<close>

text \<open>
  C4 says that a tie for the lowest latency is broken by the order of the input, so that
  the order in which the probes finish does not matter. The loop keeps the first value
  it receives among those of lowest latency: with two candidates of equal latency, the
  run in which probe 0 finishes first returns \<open>1.2.3.4\<close> and the run in which probe 1
  finishes first returns \<open>5.6.7.8\<close>.
\<close>

theorem tie_counterexample:
  "findBestCDNNode_run tieNet [Send 0, Send 1, Close, Recv, Recv] twoNodes
     = Some (findBestCDNNode tieNet [0, 1] twoNodes) \<and>
   findBestCDNNode_run tieNet [Send 1, Send 0, Close, Recv, Recv] twoNodes
     = Some (findBestCDNNode tieNet [1, 0] twoNodes) \<and>
   Latency (probe tieNet 0 (twoNodes ! 0)) = Latency (probe tieNet 1 (twoNodes ! 1)) \<and>
   IP (findBestCDNNode tieNet [0, 1] twoNodes) = ''1.2.3.4'' \<and>
   IP (findBestCDNNode tieNet [1, 0] twoNodes) = ''5.6.7.8''"
  by (simp add: eval_defs tieNet_def findBestCDNNode_run_def start_def finished_def upt_rec)

lemma findBestCDNNode_order_independent:
  assumes a1: "complete_order a1 (length nodes)" and a2: "complete_order a2 (length nodes)"
    and uniq: "\<forall>r \<in> set (probeAll net nodes). \<forall>s \<in> set (probeAll net nodes).
        0 < Latency r \<and> Latency s = Latency r \<and>
        (\<forall>t \<in> set (probeAll net nodes). 0 < Latency t \<longrightarrow> Latency r \<le> Latency t)
        \<longrightarrow> s = r"
  shows "findBestCDNNode net a1 nodes = findBestCDNNode net a2 nodes"
proof (cases "length nodes = 0")
  case True
  then show ?thesis by (simp add: findBestCDNNode_def)
next
  case False
  let ?P = "set (probeAll net nodes)"
  let ?r1 = "map (\<lambda>i. probe net i (nodes ! i)) a1"
  let ?r2 = "map (\<lambda>i. probe net i (nodes ! i)) a2"
  let ?c1 = "reduceResults ?r1" and ?c2 = "reduceResults ?r2"
  have s1: "set ?r1 = ?P" using a1 by (rule set_received)
  have s2: "set ?r2 = ?P" using a2 by (rule set_received)
  have "?c1 = ?c2"
  proof (cases "\<exists>r \<in> ?P. 0 < Latency r \<and> Latency r < 1000")
    case True
    then obtain r where r: "r \<in> ?P" "0 < Latency r" "Latency r < 1000" by blast
    from r s1 have "r \<in> set ?r1" by simp
    from reduceResults_reachable [OF this r(2,3)]
    have c1: "?c1 \<in> ?P" "0 < Latency ?c1" using s1 by simp_all
    from r s2 have "r \<in> set ?r2" by simp
    from reduceResults_reachable [OF this r(2,3)]
    have c2: "?c2 \<in> ?P" "0 < Latency ?c2" using s2 by simp_all
    have m1: "\<forall>t \<in> ?P. 0 < Latency t \<longrightarrow> Latency ?c1 \<le> Latency t"
    proof (intro ballI impI)
      fix t assume "t \<in> ?P" "0 < Latency t"
      then have "t \<in> set ?r1" "0 < Latency t" using s1 by simp_all
      then show "Latency ?c1 \<le> Latency t" by (rule reduceResults_min)
    qed
    have m2: "\<forall>t \<in> ?P. 0 < Latency t \<longrightarrow> Latency ?c2 \<le> Latency t"
    proof (intro ballI impI)
      fix t assume "t \<in> ?P" "0 < Latency t"
      then have "t \<in> set ?r2" "0 < Latency t" using s2 by simp_all
      then show "Latency ?c2 \<le> Latency t" by (rule reduceResults_min)
    qed
    from m1 c2(1) have "0 < Latency ?c2 \<longrightarrow> Latency ?c1 \<le> Latency ?c2" by (rule bspec)
    with c2(2) have "Latency ?c1 \<le> Latency ?c2" by simp
    moreover from m2 c1(1) have "0 < Latency ?c1 \<longrightarrow> Latency ?c2 \<le> Latency ?c1" by (rule bspec)
    with c1(2) have "Latency ?c2 \<le> Latency ?c1" by simp
    ultimately have eq: "Latency ?c2 = Latency ?c1" by simp
    from uniq c1(1) have "\<forall>s \<in> ?P. 0 < Latency ?c1 \<and> Latency s = Latency ?c1 \<and>
        (\<forall>t \<in> ?P. 0 < Latency t \<longrightarrow> Latency ?c1 \<le> Latency t) \<longrightarrow> s = ?c1"
      by (rule bspec)
    from this c2(1) have "0 < Latency ?c1 \<and> Latency ?c2 = Latency ?c1 \<and>
        (\<forall>t \<in> ?P. 0 < Latency t \<longrightarrow> Latency ?c1 \<le> Latency t) \<longrightarrow> ?c2 = ?c1"
      by (rule bspec)
    with c1(2) eq m1 show ?thesis by simp
  next
    case False
    have none: "\<And>rs. set rs = ?P \<Longrightarrow> reduceResults rs = zeroNode\<lparr>Latency := 1000\<rparr>"
    proof -
      fix rs :: "CDNNode list" assume e: "set rs = ?P"
      from reduceResults_cases [of rs] show "reduceResults rs = zeroNode\<lparr>Latency := 1000\<rparr>"
      proof
        assume "reduceResults rs \<in> set rs \<and> 0 < Latency (reduceResults rs)
          \<and> Latency (reduceResults rs) < 1000"
        with e have "\<exists>r \<in> ?P. 0 < Latency r \<and> Latency r < 1000" by (intro bexI) auto
        with False show ?thesis by simp
      qed
    qed
    from none [OF s1] none [OF s2] show ?thesis by simp
  qed
  with False show ?thesis by (simp add: findBestCDNNode_def)
qed

lemma foldl_better_stays:
  "\<forall>y \<in> set ys. 0 < Latency y \<longrightarrow> Latency b \<le> Latency y \<Longrightarrow> foldl better b ys = b"
  by (induction ys) (auto simp: better_def)

lemma reduceResults_first_minimum:
  assumes x: "0 < Latency x" "Latency x < 1000"
    and before: "\<forall>y \<in> set xs. 0 < Latency y \<longrightarrow> Latency x < Latency y"
    and after: "\<forall>y \<in> set ys. 0 < Latency y \<longrightarrow> Latency x \<le> Latency y"
  shows "reduceResults (xs @ x # ys) = x"
proof -
  let ?b = "foldl better (zeroNode\<lparr>Latency := 1000\<rparr>) xs"
  from foldl_better_cases [of "zeroNode\<lparr>Latency := 1000\<rparr>" xs]
  have "Latency x < Latency ?b"
  proof
    assume "?b = zeroNode\<lparr>Latency := 1000\<rparr>"
    with x(2) show ?thesis by simp
  next
    assume "?b \<in> set xs \<and> 0 < Latency ?b \<and> Latency ?b < Latency (zeroNode\<lparr>Latency := 1000\<rparr>)"
    with before show ?thesis by blast
  qed
  with x(1) have "better ?b x = x" by (simp add: better_def)
  moreover from after have "foldl better x ys = x" by (rule foldl_better_stays)
  ultimately show ?thesis by (simp add: reduceResults_def)
qed

text \<open>
  C4, amended. When the lowest latency among the reachable candidates is reached by one
  result only (two results that reach it are equal), every order of completion gives the
  same node. When that lowest latency is below 1000 ms, the latency of the initial
  \<open>bestNode\<close>, the node returned is the first one received among the reachable results
  of lowest latency: a tie is decided by the order of completion.
\<close>

theorem findBestCDNNode_tie_break:
  assumes a1: "complete_order a1 (length nodes)" and a2: "complete_order a2 (length nodes)"
  shows "((\<forall>r \<in> set (probeAll net nodes). \<forall>s \<in> set (probeAll net nodes).
            0 < Latency r \<and> Latency s = Latency r \<and>
            (\<forall>t \<in> set (probeAll net nodes). 0 < Latency t \<longrightarrow> Latency r \<le> Latency t)
            \<longrightarrow> s = r)
          \<longrightarrow> findBestCDNNode net a1 nodes = findBestCDNNode net a2 nodes)
       \<and> (a1 = before @ i # after
          \<and> 0 < Latency (probe net i (nodes ! i)) \<and> Latency (probe net i (nodes ! i)) < 1000
          \<and> (\<forall>j \<in> set before. 0 < Latency (probe net j (nodes ! j))
                \<longrightarrow> Latency (probe net i (nodes ! i)) < Latency (probe net j (nodes ! j)))
          \<and> (\<forall>j \<in> set after. 0 < Latency (probe net j (nodes ! j))
                \<longrightarrow> Latency (probe net i (nodes ! i)) \<le> Latency (probe net j (nodes ! j)))
          \<longrightarrow> findBestCDNNode net a1 nodes = probe net i (nodes ! i))"
proof (intro conjI impI)
  assume "\<forall>r \<in> set (probeAll net nodes). \<forall>s \<in> set (probeAll net nodes).
            0 < Latency r \<and> Latency s = Latency r \<and>
            (\<forall>t \<in> set (probeAll net nodes). 0 < Latency t \<longrightarrow> Latency r \<le> Latency t)
            \<longrightarrow> s = r"
  with a1 a2 show "findBestCDNNode net a1 nodes = findBestCDNNode net a2 nodes"
    by (rule findBestCDNNode_order_independent)
next
  let ?p = "\<lambda>j. probe net j (nodes ! j)"
  assume h: "a1 = before @ i # after
          \<and> 0 < Latency (?p i) \<and> Latency (?p i) < 1000
          \<and> (\<forall>j \<in> set before. 0 < Latency (?p j) \<longrightarrow> Latency (?p i) < Latency (?p j))
          \<and> (\<forall>j \<in> set after. 0 < Latency (?p j) \<longrightarrow> Latency (?p i) \<le> Latency (?p j))"
  then have "i \<in> set a1" by simp
  with a1 have "i \<in> set [0..<length nodes]"
    unfolding complete_order_def by (metis mset_eq_setD)
  then have ne: "length nodes \<noteq> 0" by auto
  from h have "reduceResults (map ?p before @ ?p i # map ?p after) = ?p i"
    by (intro reduceResults_first_minimum) auto
  with h ne show "findBestCDNNode net a1 nodes = ?p i"
    by (simp add: findBestCDNNode_def)
qed

text \<open>
  Latencies of 50 ms and 30 ms: both orders of completion return \<open>5.6.7.8\<close>. Two
  latencies of 30 ms, probe 1 finishing first: \<open>5.6.7.8\<close> is returned.
\<close>

theorem findBestCDNNode_tie_break_witness:
  "complete_order [0, 1] (length twoNodes) \<and> complete_order [1, 0] (length twoNodes) \<and>
   findBestCDNNode fastNet [0, 1] twoNodes = findBestCDNNode fastNet [1, 0] twoNodes \<and>
   IP (findBestCDNNode fastNet [1, 0] twoNodes) = ''5.6.7.8'' \<and>
   Latency (probe tieNet 0 (twoNodes ! 0)) = 30 \<and> Latency (probe tieNet 1 (twoNodes ! 1)) = 30 \<and>
   findBestCDNNode tieNet [1, 0] twoNodes = probe tieNet 1 (twoNodes ! 1)"
proof -
  note o1 = complete_order_twoNodes(1) and o2 = complete_order_twoNodes(2)
  have l: "Latency (probe fastNet 0 (twoNodes ! 0)) = 50" "Latency (probe fastNet 1 (twoNodes ! 1)) = 30"
    by (simp_all add: eval_defs fastNet_def)
  have uniq: "\<forall>r \<in> set (probeAll fastNet twoNodes). \<forall>s \<in> set (probeAll fastNet twoNodes).
        0 < Latency r \<and> Latency s = Latency r \<and>
        (\<forall>t \<in> set (probeAll fastNet twoNodes). 0 < Latency t \<longrightarrow> Latency r \<le> Latency t)
        \<longrightarrow> s = r"
    using l by (simp add: probeAll_twoNodes)
  have ip: "IP (findBestCDNNode fastNet [1, 0] twoNodes) = ''5.6.7.8''"
    by (simp add: eval_defs fastNet_def)
  from findBestCDNNode_tie_break [OF o1 o2, of fastNet] uniq
  have same: "findBestCDNNode fastNet [0, 1] twoNodes = findBestCDNNode fastNet [1, 0] twoNodes"
    by blast
  have t: "Latency (probe tieNet 0 (twoNodes ! 0)) = 30" "Latency (probe tieNet 1 (twoNodes ! 1)) = 30"
    by (simp_all add: eval_defs tieNet_def)
  have split: "[1, 0] = [] @ 1 # [0::nat]" by simp
  from findBestCDNNode_tie_break [OF o2 o1, of tieNet "[]" 1 "[0]"] t split
  have "findBestCDNNode tieNet [1, 0] twoNodes = probe tieNet 1 (twoNodes ! 1)" by simp
  with o1 o2 same ip t show ?thesis by simp
qed

subsection \<open>C3: the recorded throughput\<close>

text \<open>
  C3 says that the recorded throughput is the number of bytes transferred divided by the
  elapsed seconds. The code never looks at the number of bytes: a download of 9000 bytes
  in one second is recorded as \<open>4500 / 1024\<close>, which is neither 9000 bytes per second
  nor \<open>9000 / 1024\<close> KB per second.
\<close>

theorem probe_speed_counterexample:
  "0 < Latency (probe bigFileNet 0 (twoNodes ! 0)) \<and>
   downloads bigFileNet 0 = Downloaded 9000 1000000000 \<and>
   Seconds 1000000000 = 1 \<and>
   Speed (probe bigFileNet 0 (twoNodes ! 0)) = Finite (4500 / 1024) \<and>
   Speed (probe bigFileNet 0 (twoNodes ! 0)) \<noteq> Finite (9000 / Seconds 1000000000) \<and>
   Speed (probe bigFileNet 0 (twoNodes ! 0)) \<noteq> Finite ((9000 / 1024) / Seconds 1000000000)"
  by (simp add: eval_defs bigFileNet_def)

text \<open>
  C3, amended. For a candidate whose connection succeeded in a positive time, the
  recorded throughput of a completed download is the constant \<open>4500 / 1024\<close> (a
  nominal size in KB) divided by the elapsed seconds, whatever number of bytes was
  copied (\<open>+Inf\<close> when no time elapsed); when the download fails the recorded
  throughput is 0.
\<close>

theorem probe_speed_nominal:
  assumes "dials net i = Connected t" and "0 < t"
  shows "(\<forall>copied d. downloads net i = Downloaded copied d \<and> 0 < d \<longrightarrow>
            Speed (probe net i n) = Finite (4500 / 1024 / Seconds d))
       \<and> (\<forall>copied. downloads net i = Downloaded copied 0 \<longrightarrow> Speed (probe net i n) = PosInf)
       \<and> (downloads net i = GetError \<or> downloads net i = CopyError \<longrightarrow>
            Speed (probe net i n) = Finite 0)"
  using assms
  by (auto simp: probe_def testLatency_def testDownloadSpeed_def fdiv_def Seconds_def Let_def)

text \<open>A completed download, and a failed one.\<close>

theorem probe_speed_nominal_witness:
  "dials bigFileNet 0 = Connected 30000000 \<and> downloads bigFileNet 0 = Downloaded 9000 1000000000 \<and>
   Speed (probe bigFileNet 0 (twoNodes ! 0)) = Finite (4500 / 1024 / Seconds 1000000000) \<and>
   dials (bigFileNet\<lparr>downloads := (\<lambda>i. CopyError)\<rparr>) 0 = Connected 30000000 \<and>
   Speed (probe (bigFileNet\<lparr>downloads := (\<lambda>i. CopyError)\<rparr>) 0 (twoNodes ! 0)) = Finite 0"
proof -
  have d: "dials bigFileNet 0 = Connected 30000000" by (simp add: bigFileNet_def)
  have l: "downloads bigFileNet 0 = Downloaded 9000 1000000000" by (simp add: bigFileNet_def)
  have d': "dials (bigFileNet\<lparr>downloads := (\<lambda>i. CopyError)\<rparr>) 0 = Connected 30000000"
    by (simp add: bigFileNet_def)
  from probe_speed_nominal [OF d, of "twoNodes ! 0"] probe_speed_nominal [OF d', of "twoNodes ! 0"]
    l d d' show ?thesis by simp
qed

subsection \<open>C5: one result for every candidate\<close>

lemma fanin_inv_start: "fanin_inv net nodes (start nodes)"
  unfolding fanin_inv_def start_def
  by (rule exI [of _ "[]"]) auto

lemma fanin_inv_step:
  assumes "fanin_inv net nodes s" "step net nodes e s = Some s'"
  shows "fanin_inv net nodes s'"
proof -
  from assms(1) obtain sent where inv:
    "distinct sent" "distinct (running s)"
    "set sent \<union> set (running s) = {..<length nodes}"
    "set sent \<inter> set (running s) = {}"
    "received s @ chan s = map (\<lambda>i. probe net i (nodes ! i)) sent"
    "bestNode s = foldl better (zeroNode\<lparr>Latency := 1000\<rparr>) (received s)"
    "closed s \<longrightarrow> running s = []"
    unfolding fanin_inv_def by blast
  show ?thesis
  proof (cases e)
    case (Send i)
    with assms(2) have i: "i \<in> set (running s)"
      and s': "s' = s\<lparr>running := removeAll i (running s), chan := chan s @ [probe net i (nodes ! i)]\<rparr>"
      by (auto split: if_splits)
    from i inv(7) have nc: "\<not> closed s" by auto
    show ?thesis unfolding fanin_inv_def
    proof (rule exI [of _ "sent @ [i]"], intro conjI)
      show "distinct (sent @ [i])" using inv(1,4) i by auto
      show "distinct (running s')" using inv(2) s' by (simp add: distinct_removeAll)
      show "set (sent @ [i]) \<union> set (running s') = {..<length nodes}"
        using inv(3) i s' by auto
      show "set (sent @ [i]) \<inter> set (running s') = {}"
        using inv(4) s' by auto
      show "received s' @ chan s' = map (\<lambda>i. probe net i (nodes ! i)) (sent @ [i])"
        using inv(5) s' by (simp flip: append_assoc)
      show "bestNode s' = foldl better (zeroNode\<lparr>Latency := 1000\<rparr>) (received s')"
        using inv(6) s' by simp
      show "closed s' \<longrightarrow> running s' = []" using nc s' by simp
    qed
  next
    case Close
    with assms(2) have r: "running s = []" and s': "s' = s\<lparr>closed := True\<rparr>"
      by (auto split: if_splits)
    show ?thesis unfolding fanin_inv_def
      by (rule exI [of _ sent]) (use inv r s' in simp)
  next
    case Recv
    with assms(2) obtain node rest where c: "chan s = node # rest"
      and s': "s' = s\<lparr>chan := rest, received := received s @ [node],
                       bestNode := better (bestNode s) node\<rparr>"
      by (auto split: list.splits)
    show ?thesis unfolding fanin_inv_def
      by (rule exI [of _ sent]) (use inv c s' in simp)
  qed
qed

lemma fanin_inv_exec:
  "fanin_inv net nodes s \<Longrightarrow> exec net nodes s evs = Some s' \<Longrightarrow> fanin_inv net nodes s'"
proof (induction evs arbitrary: s)
  case Nil
  then show ?case by simp
next
  case (Cons e es)
  from Cons.prems(2) obtain s1 where s1: "step net nodes e s = Some s1"
    and rest: "exec net nodes s1 es = Some s'"
    by (auto split: option.splits)
  from Cons.prems(1) s1 have "fanin_inv net nodes s1" by (rule fanin_inv_step)
  from Cons.IH [OF this rest] show ?case .
qed

text \<open>When the loop has ended, every probe has sent its value and the loop has taken it.\<close>

lemma fanin_finished_order:
  assumes "exec net nodes (start nodes) evs = Some s" "finished s"
  shows "\<exists>arrival. complete_order arrival (length nodes)
           \<and> received s = map (\<lambda>i. probe net i (nodes ! i)) arrival
           \<and> bestNode s = reduceResults (received s) \<and> running s = []"
proof -
  have "fanin_inv net nodes s"
    using fanin_inv_start assms(1) by (rule fanin_inv_exec)
  then obtain sent where inv:
    "distinct sent"
    "set sent \<union> set (running s) = {..<length nodes}"
    "received s @ chan s = map (\<lambda>i. probe net i (nodes ! i)) sent"
    "bestNode s = foldl better (zeroNode\<lparr>Latency := 1000\<rparr>) (received s)"
    "closed s \<longrightarrow> running s = []"
    unfolding fanin_inv_def by blast
  from assms(2) have f: "closed s" "chan s = []" by (simp_all add: finished_def)
  with inv have "set sent = {..<length nodes}" by simp
  with inv(1) have "mset sent = mset [0..<length nodes]"
    by (metis atLeast_upt distinct_upt set_eq_iff_mset_eq_distinct)
  then have "complete_order sent (length nodes)" by (simp add: complete_order_def)
  moreover from inv(5) f(1) have "running s = []" by simp
  ultimately show ?thesis using inv(3,4) f by (auto simp: reduceResults_def)
qed

text \<open>
  C5. In every run of the fan-out and fan-in that has ended, the loop has received
  exactly one result for every candidate: as many results as candidates, and the same
  results as probing each candidate once. A candidate whose dial failed is among them,
  with latency \<open>-1\<close>. No probe is still running, and the node returned is the
  reduction of all these results: the selection is over the results of all the probes.
\<close>

theorem fanin_one_result_per_candidate:
  assumes run: "exec net nodes (start nodes) evs = Some s" and fin: "finished s"
  shows "length (received s) = length nodes
       \<and> mset (received s) = mset (probeAll net nodes)
       \<and> (\<forall>i<length nodes. dials net i = DialError \<longrightarrow>
             probe net i (nodes ! i) \<in> set (received s) \<and> Latency (probe net i (nodes ! i)) = - 1)
       \<and> running s = [] \<and> bestNode s = reduceResults (received s)"
proof -
  from fanin_finished_order [OF run fin] obtain arrival where
    a: "complete_order arrival (length nodes)"
       "received s = map (\<lambda>i. probe net i (nodes ! i)) arrival"
       "bestNode s = reduceResults (received s)" "running s = []"
    by blast
  from a(1) have "mset (map (\<lambda>i. probe net i (nodes ! i)) arrival) = mset (probeAll net nodes)"
    by (rule mset_received)
  with a(2) have m: "mset (received s) = mset (probeAll net nodes)" by simp
  then have "size (mset (received s)) = size (mset (probeAll net nodes))" by simp
  then have l: "length (received s) = length nodes" by (simp add: probeAll_def)
  from m have st: "set (received s) = set (probeAll net nodes)" by (rule mset_eq_setD)
  have "\<forall>i<length nodes. dials net i = DialError \<longrightarrow>
          probe net i (nodes ! i) \<in> set (received s) \<and> Latency (probe net i (nodes ! i)) = - 1"
  proof (intro allI impI)
    fix i assume i: "i < length nodes" "dials net i = DialError"
    from i(1) have "probe net i (nodes ! i) \<in> set (probeAll net nodes)"
      by (simp add: probeAll_def)
    with st i(2) show "probe net i (nodes ! i) \<in> set (received s)
        \<and> Latency (probe net i (nodes ! i)) = - 1"
      by (simp add: probe_DialError)
  qed
  with l m a(3,4) show ?thesis by simp
qed

text \<open>
  Two candidates, of which only node 0 answers; probe 1 is the first to finish. The run
  ends with two results, one of them unreachable.
\<close>

theorem fanin_one_result_per_candidate_witness:
  "exec (fastNet\<lparr>dials := (\<lambda>i. if i = 0 then Connected 50000000 else DialError)\<rparr>) twoNodes
      (start twoNodes) [Send 1, Send 0, Close, Recv, Recv] \<noteq> None \<and>
   finished (the (exec (fastNet\<lparr>dials := (\<lambda>i. if i = 0 then Connected 50000000 else DialError)\<rparr>)
      twoNodes (start twoNodes) [Send 1, Send 0, Close, Recv, Recv])) \<and>
   length (received (the (exec (fastNet\<lparr>dials := (\<lambda>i. if i = 0 then Connected 50000000 else DialError)\<rparr>)
      twoNodes (start twoNodes) [Send 1, Send 0, Close, Recv, Recv]))) = 2 \<and>
   map Latency (received (the (exec (fastNet\<lparr>dials := (\<lambda>i. if i = 0 then Connected 50000000 else DialError)\<rparr>)
      twoNodes (start twoNodes) [Send 1, Send 0, Close, Recv, Recv]))) = [- 1, 50]"
proof -
  let ?net = "fastNet\<lparr>dials := (\<lambda>i. if i = 0 then Connected 50000000 else DialError)\<rparr>"
  let ?r = "exec ?net twoNodes (start twoNodes) [Send 1, Send 0, Close, Recv, Recv]"
  have ne: "?r \<noteq> None"
    by (simp add: start_def twoNodes_def upt_rec)
  then have e: "?r = Some (the ?r)" by simp
  have f: "finished (the ?r)"
    by (simp add: start_def twoNodes_def upt_rec finished_def)
  have l: "map Latency (received (the ?r)) = [- 1, 50]"
    by (simp add: start_def upt_rec eval_defs fastNet_def)
  from fanin_one_result_per_candidate [OF e f] ne f l show ?thesis
    by (simp add: twoNodes_def)
qed

subsection \<open>Runs and orders of completion\<close>

text \<open>
  Every run that ends returns what \<open>findBestCDNNode\<close> computes for some order of
  completion, every order of completion is the order of some run, every run is at most
  \<open>2 * length nodes + 1\<close> events long, and a run that has not ended can go on.
\<close>

lemma findBestCDNNode_run_order:
  assumes "findBestCDNNode_run net evs nodes = Some b"
  shows "\<exists>arrival. complete_order arrival (length nodes) \<and> b = findBestCDNNode net arrival nodes"
proof (cases "length nodes = 0")
  case True
  with assms have "b = findBestCDNNode net [] nodes"
    by (simp add: findBestCDNNode_run_def findBestCDNNode_def)
  moreover from True have "complete_order [] (length nodes)" by (simp add: complete_order_def)
  ultimately show ?thesis by blast
next
  case False
  with assms obtain s where s: "exec net nodes (start nodes) evs = Some s" "finished s" "b = bestNode s"
    by (auto simp: findBestCDNNode_run_def split: option.splits if_splits)
  from fanin_finished_order [OF s(1,2)] s(3) False show ?thesis
    by (auto simp: findBestCDNNode_def)
qed

lemma exec_append:
  "exec net nodes s (xs @ ys) =
     (case exec net nodes s xs of None \<Rightarrow> None | Some s' \<Rightarrow> exec net nodes s' ys)"
  by (induction xs arbitrary: s) (auto split: option.splits)

lemma exec_sends:
  "distinct arrival \<Longrightarrow> set arrival \<subseteq> set (running s) \<Longrightarrow>
   exec net nodes s (map Send arrival) =
     Some (s\<lparr>running := filter (\<lambda>i. i \<notin> set arrival) (running s),
             chan := chan s @ map (\<lambda>i. probe net i (nodes ! i)) arrival\<rparr>)"
proof (induction arrival arbitrary: s)
  case Nil
  then show ?case by simp
next
  case (Cons i js)
  let ?s1 = "s\<lparr>running := removeAll i (running s), chan := chan s @ [probe net i (nodes ! i)]\<rparr>"
  from Cons.prems have js: "distinct js" "set js \<subseteq> set (running ?s1)" by auto
  have "filter (\<lambda>x. x \<notin> set js) (removeAll i (running s)) =
        filter (\<lambda>x. x \<notin> set (i # js)) (running s)"
    unfolding removeAll_filter_not_eq filter_filter by (rule filter_cong) auto
  with Cons.IH [OF js] Cons.prems show ?case by simp
qed

lemma exec_recvs:
  "chan s = c \<Longrightarrow>
   exec net nodes s (replicate (length c) Recv) =
     Some (s\<lparr>chan := [], received := received s @ c, bestNode := foldl better (bestNode s) c\<rparr>)"
proof (induction c arbitrary: s)
  case Nil
  then show ?case by simp
next
  case (Cons x xs)
  let ?s1 = "s\<lparr>chan := xs, received := received s @ [x], bestNode := better (bestNode s) x\<rparr>"
  have "chan ?s1 = xs" by simp
  from Cons.IH [OF this] Cons.prems show ?case by simp
qed

lemma findBestCDNNode_run_schedule:
  assumes "complete_order arrival (length nodes)"
  shows "findBestCDNNode_run net (schedule arrival) nodes = Some (findBestCDNNode net arrival nodes)"
proof (cases "length nodes = 0")
  case True
  then show ?thesis by (simp add: findBestCDNNode_run_def findBestCDNNode_def)
next
  case False
  let ?P = "map (\<lambda>i. probe net i (nodes ! i)) arrival"
  from assms have m: "mset arrival = mset [0..<length nodes]" by (simp add: complete_order_def)
  then have d: "distinct arrival" by (metis distinct_upt mset_eq_imp_distinct_iff)
  from m have st: "set arrival = set [0..<length nodes]" by (rule mset_eq_setD)
  then have sub: "set arrival \<subseteq> set (running (start nodes))" by (simp add: start_def)
  define s1 where "s1 = (start nodes)\<lparr>running := filter (\<lambda>i. i \<notin> set arrival) (running (start nodes)),
             chan := chan (start nodes) @ ?P\<rparr>"
  have e1: "exec net nodes (start nodes) (map Send arrival) = Some s1"
    unfolding s1_def using d sub by (rule exec_sends)
  have r1: "running s1 = []" "chan s1 = ?P" "\<not> closed s1" "received s1 = []"
    "bestNode s1 = zeroNode\<lparr>Latency := 1000\<rparr>"
    using st by (simp_all add: s1_def start_def filter_empty_conv)
  define s2 where "s2 = s1\<lparr>closed := True\<rparr>"
  have e2: "exec net nodes s1 [Close] = Some s2" using r1 by (simp add: s2_def)
  have c2: "chan s2 = ?P" using r1 by (simp add: s2_def)
  define s3 where "s3 = s2\<lparr>chan := [], received := received s2 @ ?P,
               bestNode := foldl better (bestNode s2) ?P\<rparr>"
  have e3: "exec net nodes s2 (replicate (length ?P) Recv) = Some s3"
    unfolding s3_def using c2 by (rule exec_recvs)
  have "exec net nodes (start nodes) (map Send arrival @ [Close] @ replicate (length ?P) Recv) = Some s3"
    by (simp only: exec_append e1 e2 e3 option.case)
  then have run: "exec net nodes (start nodes) (schedule arrival) = Some s3"
    by (simp add: schedule_def)
  have "finished s3" "bestNode s3 = reduceResults ?P"
    using r1 by (simp_all add: s3_def s2_def finished_def reduceResults_def)
  with False run show ?thesis
    by (simp add: findBestCDNNode_run_def findBestCDNNode_def)
qed

lemma step_load: "step net nodes e s = Some s' \<Longrightarrow> load s' < load s"
proof (cases e)
  case (Send i)
  assume "step net nodes e s = Some s'"
  with Send have i: "i \<in> set (running s)"
    and s': "s' = s\<lparr>running := removeAll i (running s), chan := chan s @ [probe net i (nodes ! i)]\<rparr>"
    by (auto split: if_splits)
  from i have "length (removeAll i (running s)) < length (running s)"
    by (rule length_removeAll_less)
  with s' show ?thesis by (simp add: load_def)
next
  case Close
  assume "step net nodes e s = Some s'"
  with Close show ?thesis by (auto simp: load_def split: if_splits)
next
  case Recv
  assume "step net nodes e s = Some s'"
  with Recv show ?thesis by (auto simp: load_def split: list.splits)
qed

lemma exec_length: "exec net nodes s evs = Some s' \<Longrightarrow> length evs + load s' \<le> load s"
proof (induction evs arbitrary: s)
  case Nil
  then show ?case by simp
next
  case (Cons e es)
  from Cons.prems obtain s1 where s1: "step net nodes e s = Some s1"
    and rest: "exec net nodes s1 es = Some s'"
    by (auto split: option.splits)
  from Cons.IH [OF rest] step_load [OF s1] show ?case by simp
qed

lemma run_length:
  "exec net nodes (start nodes) evs = Some s \<Longrightarrow> length evs \<le> 2 * length nodes + 1"
  using exec_length [of net nodes "start nodes" evs s] by (simp add: load_def start_def)

lemma step_progress:
  assumes "\<not> finished s"
  shows "\<exists>e s'. step net nodes e s = Some s'"
proof (cases "running s")
  case (Cons i r)
  then have "step net nodes (Send i) s \<noteq> None" by simp
  then show ?thesis by blast
next
  case Nil
  show ?thesis
  proof (cases "closed s")
    case False
    with Nil have "step net nodes Close s \<noteq> None" by simp
    then show ?thesis by blast
  next
    case True
    with assms have "chan s \<noteq> []" by (simp add: finished_def)
    then have "step net nodes Recv s \<noteq> None" by (simp split: list.splits)
    then show ?thesis by blast
  qed
qed

section \<open>Properties of the hosts updater\<close>

subsection \<open>Trimming, fields and joins\<close>

lemma str_space: "str '' '' = [32]"
  by (simp add: str_def)
lemma str_hash: "str ''#'' = [35]"
  by (simp add: str_def)
lemma isSpace_32: "isSpace 32"
  by (simp add: isSpace_def)
lemma isSpace_10: "isSpace 10"
  by (simp add: isSpace_def)

lemma dropWhile_trimmed: "trimmed s \<Longrightarrow> dropWhile isSpace s = s"
  by (cases s) (auto simp: trimmed_def)

lemma TrimSpace_trimmed: "trimmed s \<Longrightarrow> TrimSpace s = s"
proof (cases "s = []")
  case True
  then show ?thesis by (simp add: TrimSpace_def)
next
  case False
  assume t: "trimmed s"
  with False have "\<not> isSpace (hd s)" "\<not> isSpace (last s)" by (simp_all add: trimmed_def)
  with False have "dropWhile isSpace s = s" "dropWhile isSpace (rev s) = rev s"
    by (cases s, simp_all) (cases "rev s", simp_all add: last_rev [symmetric] hd_rev)
  then show ?thesis by (simp add: TrimSpace_def)
qed

lemma trimmed_TrimSpace: "trimmed (TrimSpace s)"
proof -
  define a where "a = dropWhile isSpace s"
  define b where "b = dropWhile isSpace (rev a)"
  have T: "TrimSpace s = rev b" by (simp add: TrimSpace_def a_def b_def)
  show ?thesis
  proof (cases "b = []")
    case True
    with T show ?thesis by (simp add: trimmed_def)
  next
    case False
    then have hb: "\<not> isSpace (hd b)" unfolding b_def by (rule hd_dropWhile)
    from False have l: "last (rev b) = hd b" by (simp add: last_rev)
    have ane: "a \<noteq> []"
    proof
      assume "a = []"
      then have "b = []" by (simp add: b_def)
      with False show False by simp
    qed
    then have ha: "\<not> isSpace (hd a)" unfolding a_def by (rule hd_dropWhile)
    have "rev a = takeWhile isSpace (rev a) @ b"
      unfolding b_def by simp
    then have "rev (rev a) = rev (takeWhile isSpace (rev a) @ b)" by (rule arg_cong)
    then have "a = rev b @ rev (takeWhile isSpace (rev a))" by simp
    then have "hd a = hd (rev b @ rev (takeWhile isSpace (rev a)))" by (rule arg_cong)
    with False have "hd (rev b) = hd a" by simp
    with ha hb l False T show ?thesis by (simp add: trimmed_def)
  qed
qed

lemma TrimSpace_idem: "TrimSpace (TrimSpace s) = TrimSpace s"
  by (rule TrimSpace_trimmed) (rule trimmed_TrimSpace)

lemma splitFields_leading: "splitFields [] (dropWhile isSpace s) = splitFields [] s"
  by (induction s) simp_all

lemma splitFields_trailing: "isSpace c \<Longrightarrow> splitFields w (s @ [c]) = splitFields w s"
  by (induction s arbitrary: w) simp_all

lemma splitFields_rev_dropWhile:
  "splitFields w (rev (dropWhile isSpace xs)) = splitFields w (rev xs)"
  by (induction xs) (simp_all add: splitFields_trailing)

lemma Fields_TrimSpace: "Fields (TrimSpace s) = Fields s"
  unfolding Fields_def TrimSpace_def
  by (simp add: splitFields_rev_dropWhile splitFields_leading)

lemma splitFields_tokens:
  "\<forall>c \<in> set w. \<not> isSpace c \<Longrightarrow> f \<in> set (splitFields w s) \<Longrightarrow> token f"
proof (induction s arbitrary: w)
  case Nil
  then show ?case by (auto simp: token_def split: if_splits)
next
  case (Cons c cs)
  show ?case
  proof (cases "isSpace c")
    case True
    with Cons.prems(2) have "(w \<noteq> [] \<and> f = w) \<or> f \<in> set (splitFields [] cs)"
      by (auto split: if_splits)
    then show ?thesis
    proof
      assume "w \<noteq> [] \<and> f = w"
      with Cons.prems(1) show ?thesis by (simp add: token_def)
    next
      assume "f \<in> set (splitFields [] cs)"
      with Cons.IH [of "[]"] show ?thesis by simp
    qed
  next
    case False
    with Cons.prems(2) have "f \<in> set (splitFields (w @ [c]) cs)" by simp
    moreover from False Cons.prems(1) have "\<forall>x \<in> set (w @ [c]). \<not> isSpace x" by simp
    ultimately show ?thesis using Cons.IH [of "w @ [c]"] by blast
  qed
qed

lemma Fields_tokens: "f \<in> set (Fields s) \<Longrightarrow> token f"
  using splitFields_tokens [of "[]" f s] by (simp add: Fields_def)

lemma splitFields_word:
  "\<forall>c \<in> set t. \<not> isSpace c \<Longrightarrow> splitFields w (t @ rest) = splitFields (w @ t) rest"
  by (induction t arbitrary: w) simp_all

lemma splitFields_token_space:
  "token t \<Longrightarrow> splitFields [] (t @ 32 # rest) = t # splitFields [] rest"
  by (simp add: splitFields_word token_def isSpace_32)

lemma Fields_Join: "\<forall>f \<in> set fs. token f \<Longrightarrow> Fields (Join fs [32]) = fs"
proof (induction fs "[32::nat]" rule: Join.induct)
  case 1
  then show ?case by (simp add: Fields_def)
next
  case (2 x)
  then have "token x" by simp
  then have "splitFields [] (x @ []) = splitFields ([] @ x) []"
    unfolding token_def by (intro splitFields_word) simp
  with \<open>token x\<close> show ?case by (simp add: Fields_def token_def)
next
  case (3 x y ys)
  then show ?case by (simp add: Fields_def splitFields_token_space)
qed

lemma Fields_line:
  "token ip \<Longrightarrow> \<forall>f \<in> set fs. token f \<Longrightarrow> Fields (ip @ [32] @ Join fs [32]) = ip # fs"
  using Fields_Join [of fs] by (simp add: Fields_def splitFields_token_space)

lemma Join_last: "fs \<noteq> [] \<Longrightarrow> \<exists>pre. Join fs sep = pre @ last fs"
  by (induction fs sep rule: Join.induct) auto

lemma trimmed_line:
  assumes "token ip" "fs \<noteq> []" "\<forall>f \<in> set fs. token f"
  shows "trimmed (ip @ [32] @ Join fs [32])"
proof -
  from assms(2) obtain pre where p: "Join fs [32] = pre @ last fs" using Join_last by blast
  from assms(2,3) have t: "token (last fs)" by simp
  then have "last (ip @ [32] @ pre @ last fs) = last (last fs)" by (simp add: token_def)
  moreover from t have "\<not> isSpace (last (last fs))" by (simp add: token_def)
  moreover from assms(1) have "\<not> isSpace (hd ip)" "ip \<noteq> []" by (simp_all add: token_def)
  ultimately show ?thesis using p by (simp add: trimmed_def)
qed

lemma HasPrefix_hash: "HasPrefix s [35] = (s \<noteq> [] \<and> hd s = 35)"
  by (cases s) (simp_all add: HasPrefix_def)

subsection \<open>The two loops, line by line\<close>

lemma updateLine_find:
  "updateLine ipMap line flds rest =
     (case find (\<lambda>d. ipMap d \<noteq> None) rest of
        None \<Rightarrow> None
      | Some d \<Rightarrow>
          (case ipMap d of
             None \<Rightarrow> None
           | Some newIP \<Rightarrow>
               if hd flds \<noteq> newIP
               then Some (newIP @ str '' '' @ Join (tl flds) (str '' ''), d, Updated d newIP)
               else Some (line, d, UpToDate d)))"
  by (induction rest) (auto split: option.splits)

lemma marks_mapped: "marks ipMap raw = Some d \<Longrightarrow> ipMap d \<noteq> None"
  by (auto simp: marks_def Let_def find_Some_iff split: if_splits)

lemma scanLine_eq:
  "scanLine ipMap st raw =
     st\<lparr>newLines := newLines st @ [rewritten ipMap raw],
        existingDomains := existingDomains st \<union> set_option (marks ipMap raw),
        printed := printed st @ message ipMap raw\<rparr>"
proof (cases "marks ipMap raw")
  case None
  then show ?thesis
    by (auto simp: scanLine_def rewritten_def message_def marks_def Let_def updateLine_find
        split: option.splits if_splits)
next
  case (Some d)
  with marks_mapped obtain ip where ip: "ipMap d = Some ip" by blast
  from Some have m: "\<not> HasPrefix (TrimSpace raw) (str ''#'')" "\<not> length (Fields (TrimSpace raw)) < 2"
    "find (\<lambda>d. ipMap d \<noteq> None) (tl (Fields (TrimSpace raw))) = Some d"
    by (auto simp: marks_def Let_def split: if_splits)
  show ?thesis
    using Some ip m
    by (simp add: scanLine_def rewritten_def message_def Let_def updateLine_find)
qed

lemma foldl_scanLine:
  "foldl (scanLine ipMap) st ls =
     st\<lparr>newLines := newLines st @ map (rewritten ipMap) ls,
        existingDomains := existingDomains st \<union> {d. \<exists>l \<in> set ls. marks ipMap l = Some d},
        printed := printed st @ concat (map (message ipMap) ls)\<rparr>"
proof (induction ls arbitrary: st)
  case Nil
  then show ?case by simp
next
  case (Cons l ls)
  have "existingDomains st \<union> set_option (marks ipMap l) \<union> {d. \<exists>x \<in> set ls. marks ipMap x = Some d}
      = existingDomains st \<union> {d. \<exists>x \<in> set (l # ls). marks ipMap x = Some d}"
    by (cases "marks ipMap l") auto
  then have e: "existingDomains (scanLine ipMap st l) \<union> {d. \<exists>x \<in> set ls. marks ipMap x = Some d}
      = existingDomains st \<union> {d. \<exists>x \<in> set (l # ls). marks ipMap x = Some d}"
    by (simp add: scanLine_eq [of ipMap st l])
  have "foldl (scanLine ipMap) st (l # ls) = foldl (scanLine ipMap) (scanLine ipMap st l) ls"
    by simp
  also have "\<dots> = (scanLine ipMap st l)
       \<lparr>newLines := newLines (scanLine ipMap st l) @ map (rewritten ipMap) ls,
        existingDomains := existingDomains (scanLine ipMap st l)
           \<union> {d. \<exists>x \<in> set ls. marks ipMap x = Some d},
        printed := printed (scanLine ipMap st l) @ concat (map (message ipMap) ls)\<rparr>"
    by (rule Cons.IH)
  also have "\<dots> = st\<lparr>newLines := newLines st @ map (rewritten ipMap) (l # ls),
        existingDomains := existingDomains st \<union> {d. \<exists>x \<in> set (l # ls). marks ipMap x = Some d},
        printed := printed st @ concat (map (message ipMap) (l # ls))\<rparr>"
    unfolding e by (simp add: scanLine_eq [of ipMap st l])
  finally show ?case .
qed

lemma addMissing_eq:
  "addMissing ipMap keys st =
     st\<lparr>newLines := newLines st @ map (entry ipMap) (missing ipMap (existingDomains st) keys),
        printed := printed st @ map (\<lambda>d. Added d (the (ipMap d))) (missing ipMap (existingDomains st) keys)\<rparr>"
proof (induction keys arbitrary: st)
  case Nil
  then show ?case by (simp add: missing_def)
next
  case (Cons d keys)
  then show ?case by (cases "ipMap d") (simp_all add: missing_def entry_def)
qed

lemma rewriteLines_eq:
  "rewriteLines ipMap keys ls =
     \<lparr>newLines = map (rewritten ipMap) ls
                   @ map (entry ipMap) (missing ipMap {d. \<exists>l \<in> set ls. marks ipMap l = Some d} keys),
      existingDomains = {d. \<exists>l \<in> set ls. marks ipMap l = Some d},
      printed = concat (map (message ipMap) ls)
                  @ map (\<lambda>d. Added d (the (ipMap d)))
                      (missing ipMap {d. \<exists>l \<in> set ls. marks ipMap l = Some d} keys)\<rparr>"
  by (simp add: rewriteLines_def addMissing_eq foldl_scanLine)

subsection \<open>Lines that a second run leaves alone\<close>

lemma marks_TrimSpace: "marks ipMap (TrimSpace raw) = marks ipMap raw"
  by (simp add: marks_def TrimSpace_idem)

lemma rewritten_TrimSpace: "rewritten ipMap (TrimSpace raw) = rewritten ipMap raw"
  unfolding rewritten_def marks_TrimSpace TrimSpace_idem by (rule refl)

lemma message_TrimSpace: "message ipMap (TrimSpace raw) = message ipMap raw"
  unfolding message_def marks_TrimSpace TrimSpace_idem by (rule refl)

lemma settled_line:
  assumes ip: "token ip" "hd ip \<noteq> 35"
    and ds: "ds \<noteq> []" "\<forall>t \<in> set ds. token t"
    and d: "find (\<lambda>d. ipMap d \<noteq> None) ds = Some d" "ipMap d = Some ip"
  shows "marks ipMap (ip @ 32 # Join ds [32]) = Some d"
    and "rewritten ipMap (ip @ 32 # Join ds [32]) = ip @ 32 # Join ds [32]"
    and "message ipMap (ip @ 32 # Join ds [32]) = [UpToDate d]"
proof -
  let ?l = "ip @ 32 # Join ds [32]"
  have "trimmed ?l" using trimmed_line [OF ip(1) ds] by simp
  then have t: "TrimSpace ?l = ?l" by (rule TrimSpace_trimmed)
  have f: "Fields ?l = ip # ds" using Fields_line [OF ip(1) ds(2)] by simp
  from ip have h: "\<not> HasPrefix ?l [35]" by (simp add: HasPrefix_hash token_def)
  from ds(1) have n: "\<not> length (ip # ds) < 2" by (cases ds) simp_all
  show m: "marks ipMap ?l = Some d"
    using h n d(1) by (simp add: marks_def Let_def t f str_hash)
  show "rewritten ipMap ?l = ?l"
    using m d(2) by (simp add: rewritten_def t f)
  show "message ipMap ?l = [UpToDate d]"
    using m d(2) by (simp add: message_def t f)
qed

lemma rewritten_settled:
  assumes "address_map ipMap"
  shows "marks ipMap (rewritten ipMap raw) = marks ipMap raw"
    and "rewritten ipMap (rewritten ipMap raw) = rewritten ipMap raw"
    and "message ipMap (rewritten ipMap raw) =
           (case marks ipMap raw of None \<Rightarrow> [] | Some d \<Rightarrow> [UpToDate d])"
proof -
  let ?F = "Fields (TrimSpace raw)"
  have "marks ipMap (rewritten ipMap raw) = marks ipMap raw
      \<and> rewritten ipMap (rewritten ipMap raw) = rewritten ipMap raw
      \<and> message ipMap (rewritten ipMap raw) =
           (case marks ipMap raw of None \<Rightarrow> [] | Some d \<Rightarrow> [UpToDate d])"
  proof (cases "marks ipMap raw")
    case None
    then have r: "rewritten ipMap raw = TrimSpace raw" by (simp add: rewritten_def)
    from None have "message ipMap raw = []" by (simp add: message_def)
    with None show ?thesis
      by (simp add: r marks_TrimSpace rewritten_TrimSpace message_TrimSpace)
  next
    case (Some d)
    with marks_mapped obtain ip where ip: "ipMap d = Some ip" by blast
    from Some have m: "\<not> length ?F < 2" "find (\<lambda>d. ipMap d \<noteq> None) (tl ?F) = Some d"
      by (auto simp: marks_def Let_def split: if_splits)
    show ?thesis
    proof (cases "hd ?F = ip")
      case True
      with Some ip have r: "rewritten ipMap raw = TrimSpace raw" by (simp add: rewritten_def)
      from True Some ip have "message ipMap raw = [UpToDate d]" by (simp add: message_def)
      with Some show ?thesis
        by (simp add: r marks_TrimSpace rewritten_TrimSpace message_TrimSpace)
    next
      case False
      with Some ip have r: "rewritten ipMap raw = ip @ 32 # Join (tl ?F) [32]"
        by (simp add: rewritten_def str_space)
      from assms ip have t: "token ip" "hd ip \<noteq> 35" by (auto simp: address_map_def)
      from m(1) have ne: "tl ?F \<noteq> []" by (cases ?F) auto
      have tk: "\<forall>t \<in> set (tl ?F). token t"
      proof
        fix t assume "t \<in> set (tl ?F)"
        then have "t \<in> set ?F" by (cases ?F) simp_all
        then show "token t" by (rule Fields_tokens)
      qed
      from settled_line [OF t ne tk m(2) ip] Some show ?thesis by (simp add: r)
    qed
  qed
  then show "marks ipMap (rewritten ipMap raw) = marks ipMap raw"
    and "rewritten ipMap (rewritten ipMap raw) = rewritten ipMap raw"
    and "message ipMap (rewritten ipMap raw) =
           (case marks ipMap raw of None \<Rightarrow> [] | Some d \<Rightarrow> [UpToDate d])"
    by simp_all
qed

lemma entry_settled:
  assumes "address_map ipMap" "ipMap d = Some ip"
  shows "marks ipMap (entry ipMap d) = Some d"
    and "rewritten ipMap (entry ipMap d) = entry ipMap d"
    and "message ipMap (entry ipMap d) = [UpToDate d]"
proof -
  from assms have t: "token ip" "hd ip \<noteq> 35" "token d" by (auto simp: address_map_def)
  have e: "entry ipMap d = ip @ 32 # Join [d] [32]"
    using assms(2) by (simp add: entry_def str_space)
  have ne: "[d] \<noteq> []" by simp
  have tk: "\<forall>t \<in> set [d]. token t" using t(3) by simp
  have f: "find (\<lambda>d. ipMap d \<noteq> None) [d] = Some d" using assms(2) by simp
  from settled_line [OF t(1,2) ne tk f assms(2)]
  show "marks ipMap (entry ipMap d) = Some d"
    and "rewritten ipMap (entry ipMap d) = entry ipMap d"
    and "message ipMap (entry ipMap d) = [UpToDate d]"
    by (simp_all only: e)
qed

subsection \<open>Writing the lines and reading them back\<close>

lemma splitLines_line:
  "10 \<notin> set l \<Longrightarrow> splitLines cur (l @ 10 # rest) = (cur @ l) # splitLines [] rest"
  by (induction l arbitrary: cur) auto

lemma splitLines_writeLines:
  "\<forall>l \<in> set ls. 10 \<notin> set l \<Longrightarrow> splitLines [] (writeLines ls) = ls"
proof (induction ls)
  case Nil
  then show ?case by (simp add: writeLines_def)
next
  case (Cons l ls)
  then have "splitLines [] (l @ 10 # writeLines ls) = ([] @ l) # splitLines [] (writeLines ls)"
    by (intro splitLines_line) simp
  with Cons show ?case by (simp add: writeLines_def)
qed

lemma writeLines_append: "writeLines (xs @ ys) = writeLines xs @ writeLines ys"
  by (simp add: writeLines_def)

lemma splitLines_prefix:
  "\<forall>l \<in> set xs. 10 \<notin> set l \<Longrightarrow> splitLines [] (writeLines xs @ rest) = xs @ splitLines [] rest"
proof (induction xs)
  case Nil
  then show ?case by (simp add: writeLines_def)
next
  case (Cons l xs)
  then have "splitLines [] (l @ 10 # (writeLines xs @ rest))
      = ([] @ l) # splitLines [] (writeLines xs @ rest)"
    by (intro splitLines_line) simp
  with Cons show ?case by (simp add: writeLines_def)
qed

lemma splitLines_no_LF:
  "10 \<notin> set cur \<Longrightarrow> l \<in> set (splitLines cur data) \<Longrightarrow> 10 \<notin> set l"
proof (induction data arbitrary: cur)
  case Nil
  then show ?case by (auto split: if_splits)
next
  case (Cons c cs)
  show ?case
  proof (cases "c = 10")
    case True
    with Cons.prems(2) have "l = cur \<or> l \<in> set (splitLines [] cs)" by simp
    with Cons.prems(1) Cons.IH [of "[]"] show ?thesis by auto
  next
    case False
    with Cons.prems(2) have "l \<in> set (splitLines (cur @ [c]) cs)" by simp
    moreover from False Cons.prems(1) have "10 \<notin> set (cur @ [c])" by simp
    ultimately show ?thesis using Cons.IH [of "cur @ [c]"] by blast
  qed
qed

lemma set_dropCR: "set (dropCR s) \<subseteq> set s"
  by (auto simp: dropCR_def dest: in_set_butlastD)

lemma scanLines_no_LF: "l \<in> set (scanLines data) \<Longrightarrow> 10 \<notin> set l"
proof -
  assume "l \<in> set (scanLines data)"
  then have "l \<in> dropCR ` set (takeWhile (\<lambda>raw. byteLen raw < MaxScanTokenSize) (splitLines [] data))"
    by (simp add: scanLines_def)
  then obtain raw where raw: "raw \<in> set (takeWhile (\<lambda>raw. byteLen raw < MaxScanTokenSize) (splitLines [] data))"
    "l = dropCR raw" by blast
  from raw(1) have "raw \<in> set (splitLines [] data)" by (rule set_takeWhileD [THEN conjunct1])
  with splitLines_no_LF [of "[]" raw data] have "10 \<notin> set raw" by simp
  with raw(2) set_dropCR [of raw] show ?thesis by blast
qed



lemma set_TrimSpace: "set (TrimSpace s) \<subseteq> set s"
proof -
  have "set (TrimSpace s) \<subseteq> set (dropWhile isSpace s)"
    unfolding TrimSpace_def using set_dropWhileD [of _ isSpace "rev (dropWhile isSpace s)"] by auto
  also have "\<dots> \<subseteq> set s" using set_dropWhileD [of _ isSpace s] by auto
  finally show ?thesis .
qed

lemma set_Join: "set (Join fs sep) \<subseteq> \<Union> (set ` set fs) \<union> set sep"
  by (induction fs sep rule: Join.induct) auto

lemma token_no_LF: "token t \<Longrightarrow> 10 \<notin> set t"
  using isSpace_10 by (auto simp: token_def)

lemma rewritten_clean:
  assumes "address_map ipMap" "10 \<notin> set raw"
  shows "10 \<notin> set (rewritten ipMap raw) \<and> trimmed (rewritten ipMap raw)"
proof -
  let ?F = "Fields (TrimSpace raw)"
  have keep: "10 \<notin> set (TrimSpace raw) \<and> trimmed (TrimSpace raw)"
    using assms(2) set_TrimSpace [of raw] trimmed_TrimSpace [of raw] by auto
  show ?thesis
  proof (cases "rewritten ipMap raw = TrimSpace raw")
    case True
    with keep show ?thesis by simp
  next
    case False
    then obtain d where d1: "marks ipMap raw = Some d"
      by (cases "marks ipMap raw") (simp_all add: rewritten_def)
    with False obtain ip where d2: "ipMap d = Some ip"
      by (cases "ipMap d") (simp_all add: rewritten_def)
    from False d1 d2 have d3: "hd ?F \<noteq> ip"
      by (auto simp: rewritten_def)
    note d = d1 d2 d3
    then have r: "rewritten ipMap raw = ip @ 32 # Join (tl ?F) [32]"
      by (simp add: rewritten_def str_space)
    from d(1) have m: "\<not> length ?F < 2" by (auto simp: marks_def Let_def split: if_splits)
    then have ne: "tl ?F \<noteq> []" by (cases ?F) auto
    have tk: "\<forall>t \<in> set (tl ?F). token t"
    proof
      fix t assume "t \<in> set (tl ?F)"
      then have "t \<in> set ?F" by (cases ?F) simp_all
      then show "token t" by (rule Fields_tokens)
    qed
    from assms(1) d(2) have t: "token ip" by (auto simp: address_map_def)
    have "trimmed (ip @ 32 # Join (tl ?F) [32])" using trimmed_line [OF t ne tk] by simp
    moreover have "10 \<notin> set (ip @ 32 # Join (tl ?F) [32])"
    proof
      assume "10 \<in> set (ip @ 32 # Join (tl ?F) [32])"
      then have "10 \<in> set ip \<or> 10 \<in> set (Join (tl ?F) [32])" by auto
      then show False
      proof
        assume "10 \<in> set ip"
        with token_no_LF [OF t] show False by simp
      next
        assume "10 \<in> set (Join (tl ?F) [32])"
        with set_Join [of "tl ?F" "[32]"] have "10 \<in> \<Union> (set ` set (tl ?F))" by auto
        then obtain f where "f \<in> set (tl ?F)" "10 \<in> set f" by blast
        with tk token_no_LF [of f] show False by blast
      qed
    qed
    ultimately show ?thesis by (simp add: r)
  qed
qed

lemma entry_clean:
  assumes "address_map ipMap" "ipMap d = Some ip"
  shows "10 \<notin> set (entry ipMap d) \<and> trimmed (entry ipMap d)"
proof -
  from assms have t: "token ip" "token d" by (auto simp: address_map_def)
  have e: "entry ipMap d = ip @ 32 # Join [d] [32]"
    using assms(2) by (simp add: entry_def str_space)
  have "trimmed (ip @ 32 # Join [d] [32])"
    using trimmed_line [OF t(1), of "[d]"] t(2) by simp
  moreover have "10 \<notin> set (ip @ 32 # Join [d] [32])"
    using token_no_LF [OF t(1)] token_no_LF [OF t(2)] by simp
  ultimately show ?thesis by (simp add: e)
qed

lemma rewritten_no_LF:
  assumes lf: "\<forall>d ip. ipMap d = Some ip \<longrightarrow> 10 \<notin> set ip" and raw: "10 \<notin> set raw"
  shows "10 \<notin> set (rewritten ipMap raw)"
proof -
  let ?F = "Fields (TrimSpace raw)"
  have keep: "10 \<notin> set (TrimSpace raw)" using raw set_TrimSpace [of raw] by auto
  have flds: "10 \<notin> set (Join (tl ?F) [32])"
  proof
    assume "10 \<in> set (Join (tl ?F) [32])"
    with set_Join [of "tl ?F" "[32]"] have "10 \<in> \<Union> (set ` set (tl ?F))" by auto
    then obtain f where f: "f \<in> set (tl ?F)" "10 \<in> set f" by blast
    from f(1) have "f \<in> set ?F" by (cases ?F) simp_all
    then have "token f" by (rule Fields_tokens)
    with f(2) token_no_LF [of f] show False by simp
  qed
  show ?thesis
  proof (cases "marks ipMap raw")
    case None
    with keep show ?thesis by (simp add: rewritten_def)
  next
    case (Some d)
    show ?thesis
    proof (cases "ipMap d")
      case None
      with Some keep show ?thesis by (simp add: rewritten_def)
    next
      case (Some ip)
      with lf have "10 \<notin> set ip" by blast
      with \<open>marks ipMap raw = Some d\<close> Some keep flds show ?thesis
        by (simp add: rewritten_def str_space)
    qed
  qed
qed


subsection \<open>C7: running the update twice\<close>

lemma first_pass_lines:
  assumes am: "address_map ipMap"
    and l: "l \<in> set (newLines (rewriteLines ipMap keys ls))"
  shows "rewritten ipMap l = l"
    and "message ipMap l = [] \<or> (\<exists>d. message ipMap l = [UpToDate d])"
    and "(\<forall>raw \<in> set ls. 10 \<notin> set raw) \<longrightarrow> 10 \<notin> set l \<and> trimmed l"
proof -
  let ?E = "{d. \<exists>l \<in> set ls. marks ipMap l = Some d}"
  from l have "(\<exists>raw \<in> set ls. l = rewritten ipMap raw)
      \<or> (\<exists>d \<in> set (missing ipMap ?E keys). l = entry ipMap d)"
    by (auto simp: rewriteLines_eq)
  then have "rewritten ipMap l = l
      \<and> (message ipMap l = [] \<or> (\<exists>d. message ipMap l = [UpToDate d]))
      \<and> ((\<forall>raw \<in> set ls. 10 \<notin> set raw) \<longrightarrow> 10 \<notin> set l \<and> trimmed l)"
  proof
    assume "\<exists>raw \<in> set ls. l = rewritten ipMap raw"
    then obtain raw where raw: "raw \<in> set ls" "l = rewritten ipMap raw" by blast
    have "message ipMap l = [] \<or> (\<exists>d. message ipMap l = [UpToDate d])"
      unfolding raw(2) rewritten_settled(3) [OF am] by (cases "marks ipMap raw") simp_all
    moreover have "(\<forall>raw \<in> set ls. 10 \<notin> set raw) \<longrightarrow> 10 \<notin> set l \<and> trimmed l"
      using raw rewritten_clean [OF am, of raw] by blast
    ultimately show ?thesis using raw(2) rewritten_settled(2) [OF am, of raw] by simp
  next
    assume "\<exists>d \<in> set (missing ipMap ?E keys). l = entry ipMap d"
    then obtain d where d: "d \<in> set (missing ipMap ?E keys)" "l = entry ipMap d" by blast
    from d(1) obtain ip where ip: "ipMap d = Some ip" by (auto simp: missing_def)
    from entry_settled [OF am ip] entry_clean [OF am ip] d(2) show ?thesis by simp
  qed
  then show "rewritten ipMap l = l"
    and "message ipMap l = [] \<or> (\<exists>d. message ipMap l = [UpToDate d])"
    and "(\<forall>raw \<in> set ls. 10 \<notin> set raw) \<longrightarrow> 10 \<notin> set l \<and> trimmed l"
    by simp_all
qed
















lemmas hosts_eval = updateHosts_def hostsFile_def hostsPath_def hostsWith_def scanLines_def
  rewriteLines_def scanLine_def Fields_def str_def isSpace_def TrimSpace_def HasPrefix_def
  dropCR_def writeLines_def byteLen_def utf8Len_def MaxScanTokenSize_def



lemma first_run_sample:
  "updateHosts ''linux'' (hostsWith sampleHosts) sampleMap sampleKeys =
     (None, hostsWith sampleHostsUpdated,
      [Updated (str ''github.com'') (str ''140.82.112.3''),
       Added (str ''assets-cdn.github.com'') (str ''185.199.108.153'')])"
  by (simp add: hosts_eval sampleHosts_def sampleHostsUpdated_def sampleMap_def sampleKeys_def)



subsection \<open>C8: comments and short lines\<close>

lemma updateHosts_written:
  assumes run: "updateHosts goos fs ipMap keys = (None, fs', out)"
    and hf: "hostsFile goos fs = Some data"
  shows "hostsFile goos fs' = Some (writeLines (newLines (rewriteLines ipMap keys (scanLines data))))"
    and "out = printed (rewriteLines ipMap keys (scanLines data))"
proof -
  from hf obtain path where path: "hostsPath goos = Some path" "files fs path = Some data"
    by (auto simp: hostsFile_def split: option.splits)
  with run have "fs' = fs\<lparr>files := (files fs)(path \<mapsto>
        writeLines (newLines (rewriteLines ipMap keys (scanLines data))))\<rparr>
      \<and> out = printed (rewriteLines ipMap keys (scanLines data))"
    by (auto simp: updateHosts_def Let_def split: if_splits)
  with path(1) show "hostsFile goos fs' =
      Some (writeLines (newLines (rewriteLines ipMap keys (scanLines data))))"
    and "out = printed (rewriteLines ipMap keys (scanLines data))"
    by (simp_all add: hostsFile_def)
qed

text \<open>
  C8 says that comment lines and lines of fewer than two fields are written unchanged,
  byte for byte. Every line goes through \<open>strings.TrimSpace\<close> first (and the scanner
  drops a carriage return): the comment \<open>"# local "\<close> is written without its last
  space, and the line \<open>"\tlocalhost\r"\<close> without its tab and carriage return.
\<close>

theorem padded_lines_counterexample:
  "scanLines paddedHosts = [str ''# local '', 9 # str ''localhost''] \<and>
   HasPrefix (scanLines paddedHosts ! 0) (str ''#'') \<and>
   length (Fields (scanLines paddedHosts ! 1)) < 2 \<and>
   updateHosts ''linux'' (hostsWith paddedHosts) Map.empty [] =
     (None, hostsWith (str ''# local'' @ [10] @ str ''localhost'' @ [10]), []) \<and>
   scanLines (str ''# local'' @ [10] @ str ''localhost'' @ [10]) = [str ''# local'', str ''localhost''] \<and>
   str ''# local'' \<noteq> str ''# local '' \<and> str ''localhost'' \<noteq> 9 # str ''localhost''"
  by (simp add: hosts_eval paddedHosts_def)

text \<open>
  C8, amended. Let no address of the mapping contain a line feed. For every hosts file,
  a line that the scanner reads and that is a comment (its text without the white space
  around it starts with \<open>#\<close>) or has fewer than two fields is, in the file written, the
  line at the same position without the white space around it; a line with no white
  space at either end is written as it is.
\<close>

theorem updateHosts_trims_comments:
  assumes run: "updateHosts goos fs ipMap keys = (None, fs', out)"
    and hf: "hostsFile goos fs = Some data"
    and lf: "\<forall>d ip. ipMap d = Some ip \<longrightarrow> 10 \<notin> set ip"
    and i: "i < length (scanLines data)"
    and sk: "HasPrefix (TrimSpace (scanLines data ! i)) (str ''#'')
               \<or> length (Fields (TrimSpace (scanLines data ! i))) < 2"
  shows "\<exists>data'. hostsFile goos fs' = Some data' \<and> i < length (splitLines [] data')
           \<and> splitLines [] data' ! i = TrimSpace (scanLines data ! i)
           \<and> (trimmed (scanLines data ! i) \<longrightarrow> splitLines [] data' ! i = scanLines data ! i)"
proof -
  let ?L = "scanLines data"
  let ?E = "{d. \<exists>l \<in> set ?L. marks ipMap l = Some d}"
  let ?old = "map (rewritten ipMap) ?L"
  let ?added = "map (entry ipMap) (missing ipMap ?E keys)"
  let ?data' = "writeLines (newLines (rewriteLines ipMap keys ?L))"
  have "\<forall>l \<in> set ?old. 10 \<notin> set l"
    using rewritten_no_LF [OF lf] scanLines_no_LF [of _ data] by auto
  then have "splitLines [] (writeLines ?old @ writeLines ?added)
      = ?old @ splitLines [] (writeLines ?added)"
    by (rule splitLines_prefix)
  then have sp: "splitLines [] ?data' = ?old @ splitLines [] (writeLines ?added)"
    by (simp add: rewriteLines_eq writeLines_append)
  from sk have "marks ipMap (?L ! i) = None" by (auto simp: marks_def)
  then have r: "rewritten ipMap (?L ! i) = TrimSpace (?L ! i)"
    by (simp add: rewritten_def)
  from i have len: "i < length (splitLines [] ?data')" by (simp add: sp)
  from i r have line: "splitLines [] ?data' ! i = TrimSpace (?L ! i)"
    by (simp add: sp nth_append)
  from line have "trimmed (?L ! i) \<longrightarrow> splitLines [] ?data' ! i = ?L ! i"
    using TrimSpace_trimmed [of "?L ! i"] by simp
  with updateHosts_written(1) [OF run hf] len line show ?thesis by blast
qed

text \<open>
  The comment of the sample file, written as it is, and the line of one field after a
  tab and before a carriage return, written without them.
\<close>

theorem updateHosts_trims_comments_witness:
  "hostsFile ''linux'' (hostsWith sampleHosts) = Some sampleHosts \<and>
   scanLines sampleHosts ! 0 = str ''# local'' \<and>
   hostsFile ''linux'' (fst (snd (updateHosts ''linux'' (hostsWith sampleHosts) sampleMap sampleKeys)))
     = Some sampleHostsUpdated \<and>
   splitLines [] sampleHostsUpdated ! 0 = str ''# local'' \<and>
   hostsFile ''linux'' (hostsWith paddedHosts) = Some paddedHosts \<and>
   scanLines paddedHosts ! 1 = 9 # str ''localhost'' \<and>
   hostsFile ''linux'' (fst (snd (updateHosts ''linux'' (hostsWith paddedHosts) Map.empty [])))
     = Some (str ''# local'' @ [10] @ str ''localhost'' @ [10]) \<and>
   splitLines [] (str ''# local'' @ [10] @ str ''localhost'' @ [10]) ! 1 = str ''localhost''"
proof -
  have f: "hostsFile ''linux'' (hostsWith sampleHosts) = Some sampleHosts"
    by (simp add: hostsFile_def hostsPath_def hostsWith_def)
  have lf: "\<forall>d ip. sampleMap d = Some ip \<longrightarrow> 10 \<notin> set ip"
    by (auto simp: sampleMap_def str_def split: if_splits)
  have l: "scanLines sampleHosts = [str ''# local'', str ''127.0.0.1 localhost'',
      str ''1.1.1.1 github.com www.github.com'']"
    by (simp add: hosts_eval sampleHosts_def)
  have i: "0 < length (scanLines sampleHosts)" by (simp add: l)
  have c: "HasPrefix (TrimSpace (scanLines sampleHosts ! 0)) (str ''#'')
      \<or> length (Fields (TrimSpace (scanLines sampleHosts ! 0))) < 2"
    by (simp add: l) (simp add: hosts_eval)
  have t: "trimmed (scanLines sampleHosts ! 0)"
    by (simp add: l) (simp add: trimmed_def str_def isSpace_def)
  have f': "hostsFile ''linux'' (hostsWith sampleHostsUpdated) = Some sampleHostsUpdated"
    by (simp add: hostsFile_def hostsPath_def hostsWith_def)
  from updateHosts_trims_comments [OF first_run_sample f lf i c]
  obtain data' where d: "hostsFile ''linux'' (hostsWith sampleHostsUpdated) = Some data'"
    "trimmed (scanLines sampleHosts ! 0) \<longrightarrow> splitLines [] data' ! 0 = scanLines sampleHosts ! 0"
    by blast
  from d(1) f' have "data' = sampleHostsUpdated" by simp
  with d(2) t have "splitLines [] sampleHostsUpdated ! 0 = scanLines sampleHosts ! 0" by simp
  then have zero: "splitLines [] sampleHostsUpdated ! 0 = str ''# local''" by (simp add: l)
  let ?written = "str ''# local'' @ [10] @ str ''localhost'' @ [10]"
  have run: "updateHosts ''linux'' (hostsWith paddedHosts) Map.empty [] =
      (None, hostsWith ?written, [])"
    by (simp add: hosts_eval paddedHosts_def)
  have g: "hostsFile ''linux'' (hostsWith paddedHosts) = Some paddedHosts"
    by (simp add: hostsFile_def hostsPath_def hostsWith_def)
  have g': "hostsFile ''linux'' (hostsWith ?written) = Some ?written"
    by (simp add: hostsFile_def hostsPath_def hostsWith_def)
  have p: "scanLines paddedHosts = [str ''# local '', 9 # str ''localhost'']"
    by (simp add: hosts_eval paddedHosts_def)
  have j: "1 < length (scanLines paddedHosts)" by (simp add: p)
  have k: "HasPrefix (TrimSpace (scanLines paddedHosts ! 1)) (str ''#'')
      \<or> length (Fields (TrimSpace (scanLines paddedHosts ! 1))) < 2"
    by (simp add: p) (simp add: hosts_eval)
  from updateHosts_trims_comments [OF run g _ j k]
  obtain data2 where e: "hostsFile ''linux'' (hostsWith ?written) = Some data2"
    "splitLines [] data2 ! 1 = TrimSpace (scanLines paddedHosts ! 1)"
    by auto
  from e(1) g' have "data2 = ?written" by simp
  with e(2) have "splitLines [] ?written ! 1 = TrimSpace (scanLines paddedHosts ! 1)" by simp
  also have "\<dots> = str ''localhost''" by (simp add: p) (simp add: hosts_eval)
  finally have one: "splitLines [] ?written ! 1 = str ''localhost''" .
  from f l first_run_sample f' zero g p run g' one show ?thesis by simp
qed

subsection \<open>C10: several mapped hostnames on one line\<close>

lemma split_at_space:
  "32 \<notin> set a \<Longrightarrow> 32 \<notin> set b \<Longrightarrow> a @ 32 # x = b @ 32 # y \<Longrightarrow> a = b \<and> x = y"
proof (induction a arbitrary: b)
  case Nil
  then show ?case by (cases b) auto
next
  case (Cons c a)
  then show ?case by (cases b) auto
qed

lemma token_no_space: "token t \<Longrightarrow> 32 \<notin> set t"
  using isSpace_32 by (auto simp: token_def)

lemma entry_inject:
  assumes am: "address_map ipMap" and d: "ipMap d = Some ip" and h: "ipMap h = Some ip'"
    and e: "entry ipMap d = ip' @ str '' '' @ h"
  shows "d = h"
proof -
  from am d h have "32 \<notin> set ip" "32 \<notin> set ip'"
    by (auto simp: address_map_def dest: token_no_space)
  moreover from e d have "ip @ 32 # d = ip' @ 32 # h" by (simp add: entry_def str_space)
  ultimately show ?thesis using split_at_space by blast
qed

lemma address_map_abMap: "address_map abMap"
  by (auto simp: address_map_def abMap_def token_def str_def isSpace_def split: if_splits)

text \<open>
  C10 says that every mapped hostname of a line other than the first mapped one is left
  unmarked and is therefore added as a line of its own. A hostname is added only when no
  line at all marks it: here \<open>b\<close> comes second on the line of \<open>a\<close> and first on a
  line of its own, which marks it, and nothing is added to the file.
\<close>

theorem own_line_counterexample:
  "scanLines sharedLineAndOwn = [str ''1.1.1.1 a b'', str ''3.3.3.3 b''] \<and>
   Fields (str ''1.1.1.1 a b'') = [str ''1.1.1.1'', str ''a'', str ''b''] \<and>
   abMap (str ''a'') = Some (str ''2.2.2.2'') \<and> abMap (str ''b'') = Some (str ''3.3.3.3'') \<and>
   updateHosts ''linux'' (hostsWith sharedLineAndOwn) abMap [str ''a'', str ''b''] =
     (None, hostsWith (str ''2.2.2.2 a b'' @ [10] @ str ''3.3.3.3 b'' @ [10]),
      [Updated (str ''a'') (str ''2.2.2.2''), UpToDate (str ''b'')]) \<and>
   updateHosts ''linux'' (hostsWith sharedLineAndOwn) abMap [str ''b'', str ''a''] =
     (None, hostsWith (str ''2.2.2.2 a b'' @ [10] @ str ''3.3.3.3 b'' @ [10]),
      [Updated (str ''a'') (str ''2.2.2.2''), UpToDate (str ''b'')]) \<and>
   scanLines (str ''2.2.2.2 a b'' @ [10] @ str ''3.3.3.3 b'' @ [10])
     = [str ''2.2.2.2 a b'', str ''3.3.3.3 b'']"
  by (simp add: hosts_eval sharedLineAndOwn_def abMap_def)

text \<open>
  C10, amended. Let \<open>ipMap\<close> map domains to addresses. When a line of the file has a
  first mapped hostname \<open>h1\<close>, the line at the same position of the file written has
  the address of \<open>h1\<close> in front (the line is rewritten when its address differs, and
  kept otherwise), whatever other mapped hostnames it lists. The lines after those read
  are one line \<open>address domain\<close> for every key that is the first mapped hostname of no
  line, in the order of the keys. So another mapped hostname \<open>h2\<close> of that line is added
  as a line of its own, with the message "added", exactly when it is the first mapped
  hostname of no line of the file; when some line marks it, it is not added.
\<close>

theorem updateHosts_first_match_only:
  assumes run: "updateHosts goos fs ipMap keys = (None, fs', out)"
    and hf: "hostsFile goos fs = Some data"
    and am: "address_map ipMap" and ko: "key_order keys ipMap"
    and i: "i < length (scanLines data)"
    and h1: "marks ipMap (scanLines data ! i) = Some h1" "ipMap h1 = Some ip1"
    and h2: "h2 \<in> set (tl (Fields (TrimSpace (scanLines data ! i))))" "ipMap h2 = Some ip2"
  shows "\<exists>data'. hostsFile goos fs' = Some data'
           \<and> i < length (splitLines [] data')
           \<and> splitLines [] data' ! i =
               (if hd (Fields (TrimSpace (scanLines data ! i))) \<noteq> ip1
                then ip1 @ str '' '' @ Join (tl (Fields (TrimSpace (scanLines data ! i)))) (str '' '')
                else TrimSpace (scanLines data ! i))
           \<and> drop (length (scanLines data)) (splitLines [] data') =
               map (\<lambda>d. the (ipMap d) @ str '' '' @ d)
                 (filter (\<lambda>d. \<forall>raw \<in> set (scanLines data). marks ipMap raw \<noteq> Some d) keys)
           \<and> (ip2 @ str '' '' @ h2 \<in> set (drop (length (scanLines data)) (splitLines [] data'))
                \<longleftrightarrow> (\<forall>raw \<in> set (scanLines data). marks ipMap raw \<noteq> Some h2))
           \<and> (Added h2 ip2 \<in> set out
                \<longleftrightarrow> (\<forall>raw \<in> set (scanLines data). marks ipMap raw \<noteq> Some h2))"
proof -
  let ?L = "scanLines data"
  let ?E = "{d. \<exists>l \<in> set ?L. marks ipMap l = Some d}"
  let ?ls = "newLines (rewriteLines ipMap keys ?L)"
  let ?free = "\<lambda>d. \<forall>raw \<in> set ?L. marks ipMap raw \<noteq> Some d"
  have clean: "\<forall>l \<in> set ?ls. 10 \<notin> set l"
  proof
    fix l assume "l \<in> set ?ls"
    from first_pass_lines(3) [OF am this] scanLines_no_LF [of _ data]
    show "10 \<notin> set l" by blast
  qed
  then have sp: "splitLines [] (writeLines ?ls) = ?ls" by (rule splitLines_writeLines)
  from ko have keys: "\<forall>d \<in> set keys. ipMap d \<noteq> None" by (auto simp: key_order_def)
  then have mis: "missing ipMap ?E keys = filter ?free keys"
    unfolding missing_def by (intro filter_cong) auto
  have dr: "drop (length ?L) ?ls = map (entry ipMap) (filter ?free keys)"
    by (simp add: rewriteLines_eq mis)
  then have dr': "drop (length ?L) ?ls = map (\<lambda>d. the (ipMap d) @ str '' '' @ d) (filter ?free keys)"
    by (simp add: entry_def [abs_def])
  from ko h2(2) have k2: "h2 \<in> set keys" by (auto simp: key_order_def)
  have app: "ip2 @ str '' '' @ h2 \<in> set (drop (length ?L) ?ls) \<longleftrightarrow> ?free h2"
  proof
    assume "ip2 @ str '' '' @ h2 \<in> set (drop (length ?L) ?ls)"
    with dr obtain d where d: "d \<in> set keys" "?free d" "entry ipMap d = ip2 @ str '' '' @ h2"
      by auto
    from d(1) keys obtain ip where "ipMap d = Some ip" by auto
    from entry_inject [OF am this h2(2) d(3)] d(2) show "?free h2" by simp
  next
    assume "?free h2"
    with k2 have "h2 \<in> set (filter ?free keys)" by simp
    then have "entry ipMap h2 \<in> set (drop (length ?L) ?ls)" unfolding dr by simp
    with h2(2) show "ip2 @ str '' '' @ h2 \<in> set (drop (length ?L) ?ls)" by (simp add: entry_def)
  qed
  from i have len: "i < length ?ls" by (simp add: rewriteLines_eq)
  from i have "?ls ! i = rewritten ipMap (?L ! i)"
    by (simp add: rewriteLines_eq nth_append)
  with h1 have line: "?ls ! i =
      (if hd (Fields (TrimSpace (?L ! i))) \<noteq> ip1
       then ip1 @ str '' '' @ Join (tl (Fields (TrimSpace (?L ! i)))) (str '' '')
       else TrimSpace (?L ! i))"
    by (simp add: rewritten_def)
  have msg: "\<And>raw. Added h2 ip2 \<notin> set (message ipMap raw)"
    by (auto simp: message_def split: option.splits if_splits)
  have "Added h2 ip2 \<in> set (printed (rewriteLines ipMap keys ?L))
      \<longleftrightarrow> Added h2 ip2 \<in> (\<lambda>d. Added d (the (ipMap d))) ` set (filter ?free keys)"
    using msg by (simp add: rewriteLines_eq mis)
  also have "\<dots> \<longleftrightarrow> ?free h2" using k2 h2(2) by auto
  finally have added: "Added h2 ip2 \<in> set out \<longleftrightarrow> ?free h2"
    by (simp add: updateHosts_written(2) [OF run hf])
  from updateHosts_written(1) [OF run hf]
  have "hostsFile goos fs' = Some (writeLines ?ls)" .
  moreover from len have "i < length (splitLines [] (writeLines ?ls))" by (simp only: sp)
  moreover from line have "splitLines [] (writeLines ?ls) ! i =
      (if hd (Fields (TrimSpace (?L ! i))) \<noteq> ip1
       then ip1 @ str '' '' @ Join (tl (Fields (TrimSpace (?L ! i)))) (str '' '')
       else TrimSpace (?L ! i))" by (simp only: sp)
  moreover from dr' have "drop (length ?L) (splitLines [] (writeLines ?ls)) =
      map (\<lambda>d. the (ipMap d) @ str '' '' @ d) (filter ?free keys)" by (simp only: sp)
  moreover from app have "ip2 @ str '' '' @ h2 \<in> set (drop (length ?L) (splitLines [] (writeLines ?ls)))
      \<longleftrightarrow> ?free h2" by (simp only: sp)
  ultimately show ?thesis using added by blast
qed

text \<open>
  The line \<open>1.1.1.1 a b\<close> alone: it is rewritten for \<open>a\<close>, and \<open>b\<close> is added. With
  the line \<open>3.3.3.3 b\<close> after it, \<open>b\<close> is not added.
\<close>

theorem updateHosts_first_match_only_witness:
  "address_map abMap \<and>
   hostsFile ''linux'' (hostsWith sharedLine) = Some sharedLine \<and>
   key_order [str ''b'', str ''a''] abMap \<and>
   scanLines sharedLine = [str ''1.1.1.1 a b''] \<and>
   marks abMap (str ''1.1.1.1 a b'') = Some (str ''a'') \<and>
   updateHosts ''linux'' (hostsWith sharedLine) abMap [str ''b'', str ''a''] =
     (None, hostsWith (str ''2.2.2.2 a b'' @ [10] @ str ''3.3.3.3 b'' @ [10]),
      [Updated (str ''a'') (str ''2.2.2.2''), Added (str ''b'') (str ''3.3.3.3'')]) \<and>
   splitLines [] (str ''2.2.2.2 a b'' @ [10] @ str ''3.3.3.3 b'' @ [10])
     = [str ''2.2.2.2 a b'', str ''3.3.3.3 b''] \<and>
   hostsFile ''linux'' (hostsWith sharedLineAndOwn) = Some sharedLineAndOwn \<and>
   key_order [str ''a'', str ''b''] abMap \<and>
   scanLines sharedLineAndOwn = [str ''1.1.1.1 a b'', str ''3.3.3.3 b''] \<and>
   marks abMap (str ''3.3.3.3 b'') = Some (str ''b'') \<and>
   updateHosts ''linux'' (hostsWith sharedLineAndOwn) abMap [str ''a'', str ''b''] =
     (None, hostsWith (str ''2.2.2.2 a b'' @ [10] @ str ''3.3.3.3 b'' @ [10]),
      [Updated (str ''a'') (str ''2.2.2.2''), UpToDate (str ''b'')])"
proof -
  let ?written = "str ''2.2.2.2 a b'' @ [10] @ str ''3.3.3.3 b'' @ [10]"
  let ?out = "[Updated (str ''a'') (str ''2.2.2.2''), Added (str ''b'') (str ''3.3.3.3'')]"
  let ?out' = "[Updated (str ''a'') (str ''2.2.2.2''), UpToDate (str ''b'')]"
  have run: "updateHosts ''linux'' (hostsWith sharedLine) abMap [str ''b'', str ''a''] =
     (None, hostsWith ?written, ?out)"
    by (simp add: hosts_eval sharedLine_def abMap_def)
  have hf: "hostsFile ''linux'' (hostsWith sharedLine) = Some sharedLine"
    by (simp add: hostsFile_def hostsPath_def hostsWith_def)
  have hw: "hostsFile ''linux'' (hostsWith ?written) = Some ?written"
    by (simp add: hostsFile_def hostsPath_def hostsWith_def)
  have ko: "key_order [str ''b'', str ''a''] abMap"
    by (auto simp: key_order_def abMap_def str_def)
  have l: "scanLines sharedLine = [str ''1.1.1.1 a b'']"
    by (simp add: hosts_eval sharedLine_def)
  have i: "0 < length (scanLines sharedLine)" by (simp add: l)
  have m: "marks abMap (str ''1.1.1.1 a b'') = Some (str ''a'')"
    by (simp add: marks_def hosts_eval abMap_def)
  then have h1: "marks abMap (scanLines sharedLine ! 0) = Some (str ''a'')"
    "abMap (str ''a'') = Some (str ''2.2.2.2'')"
    by (simp_all add: l) (simp add: abMap_def str_def)
  have h2: "str ''b'' \<in> set (tl (Fields (TrimSpace (scanLines sharedLine ! 0))))"
    "abMap (str ''b'') = Some (str ''3.3.3.3'')"
    by (simp_all add: l) (simp_all add: hosts_eval abMap_def)
  have free: "\<forall>raw \<in> set (scanLines sharedLine). marks abMap raw \<noteq> Some (str ''b'')"
    using m by (simp add: l) (simp add: str_def)
  from updateHosts_first_match_only [OF run hf address_map_abMap ko i h1 h2]
  obtain data' where d: "hostsFile ''linux'' (hostsWith ?written) = Some data'"
    "drop (length (scanLines sharedLine)) (splitLines [] data') =
       map (\<lambda>d. the (abMap d) @ str '' '' @ d)
         (filter (\<lambda>d. \<forall>raw \<in> set (scanLines sharedLine). marks abMap raw \<noteq> Some d)
            [str ''b'', str ''a''])"
    "Added (str ''b'') (str ''3.3.3.3'') \<in> set ?out
       \<longleftrightarrow> (\<forall>raw \<in> set (scanLines sharedLine). marks abMap raw \<noteq> Some (str ''b''))"
    by blast
  from d(3) free have added: "Added (str ''b'') (str ''3.3.3.3'') \<in> set ?out" by blast
  have sp: "splitLines [] ?written = [str ''2.2.2.2 a b'', str ''3.3.3.3 b'']"
    by (simp add: str_def)
  have run': "updateHosts ''linux'' (hostsWith sharedLineAndOwn) abMap [str ''a'', str ''b''] =
     (None, hostsWith ?written, ?out')"
    by (simp add: hosts_eval sharedLineAndOwn_def abMap_def)
  have hf': "hostsFile ''linux'' (hostsWith sharedLineAndOwn) = Some sharedLineAndOwn"
    by (simp add: hostsFile_def hostsPath_def hostsWith_def)
  have ko': "key_order [str ''a'', str ''b''] abMap"
    by (auto simp: key_order_def abMap_def str_def)
  have l': "scanLines sharedLineAndOwn = [str ''1.1.1.1 a b'', str ''3.3.3.3 b'']"
    by (simp add: hosts_eval sharedLineAndOwn_def)
  have i': "0 < length (scanLines sharedLineAndOwn)" by (simp add: l')
  have m': "marks abMap (str ''3.3.3.3 b'') = Some (str ''b'')"
    by (simp add: marks_def hosts_eval abMap_def)
  from m have h1': "marks abMap (scanLines sharedLineAndOwn ! 0) = Some (str ''a'')"
    by (simp add: l')
  have h2': "str ''b'' \<in> set (tl (Fields (TrimSpace (scanLines sharedLineAndOwn ! 0))))"
    by (simp add: l') (simp add: hosts_eval)
  from updateHosts_first_match_only [OF run' hf' address_map_abMap ko' i' h1' h1(2) h2' h2(2)]
  have "Added (str ''b'') (str ''3.3.3.3'') \<in> set ?out'
       \<longleftrightarrow> (\<forall>raw \<in> set (scanLines sharedLineAndOwn). marks abMap raw \<noteq> Some (str ''b''))"
    by blast
  with m' have "Added (str ''b'') (str ''3.3.3.3'') \<notin> set ?out'" by (simp add: l')
  with added address_map_abMap hf ko l m run sp hf' ko' l' m' run' show ?thesis by simp
qed

subsection \<open>C9: the filter on node names\<close>

lemma ContainsAny_iff: "ContainsAny s chars \<longleftrightarrow> (\<exists>c \<in> set s. c \<in> set chars)"
  by (induction s) auto

lemma collectDelays_keeps:
  "ips ip = Some ds \<Longrightarrow> \<exists>more. collectDelays nodeList ips ip = Some (ds @ more)"
proof (induction nodeList arbitrary: ips ds)
  case Nil
  then show ?case by simp
next
  case (Cons node rest)
  show ?case
  proof (cases "Timeout node > 0 \<or> \<not> ContainsAny (NodeName node) domesticChars")
    case True
    then have "collectDelays (node # rest) ips = collectDelays rest ips" by auto
    with Cons.IH [of ips ds] Cons.prems show ?thesis by simp
  next
    case False
    define ips' where "ips' = ips(NodeIP node \<mapsto>
        (case ips (NodeIP node) of None \<Rightarrow> [] | Some ds \<Rightarrow> ds) @ [AvgTime node])"
    from False have step: "collectDelays (node # rest) ips = collectDelays rest ips'"
      by (simp add: ips'_def)
    show ?thesis
    proof (cases "NodeIP node = ip")
      case True
      with Cons.prems have "ips' ip = Some (ds @ [AvgTime node])" by (simp add: ips'_def)
      with Cons.IH [of ips' "ds @ [AvgTime node]"] obtain more where
        "collectDelays rest ips' ip = Some ((ds @ [AvgTime node]) @ more)" by blast
      then have "collectDelays rest ips' ip = Some (ds @ ([AvgTime node] @ more))" by simp
      then show ?thesis unfolding step by (rule exI)
    next
      case False
      with Cons.prems have "ips' ip = Some ds" by (simp add: ips'_def)
      with Cons.IH [of ips' ds] show ?thesis unfolding step by blast
    qed
  qed
qed

text \<open>
  C9. The filter of \<open>findFastestIP\<close> accepts a node (one that did not time out) as
  soon as its name contains one code point of the string of city names: the delay of
  such a node is recorded under its address. The name need not contain a whole city
  name.
\<close>

theorem domestic_filter_single_character:
  assumes "node \<in> set nodeList" and "Timeout node \<le> 0"
    and "c \<in> set (NodeName node)" and "c \<in> set domesticChars"
  shows "\<exists>delays. collectDelays nodeList ips (NodeIP node) = Some delays
           \<and> AvgTime node \<in> set delays"
  using assms(1)
proof (induction nodeList arbitrary: ips)
  case Nil
  then show ?case by simp
next
  case (Cons n rest)
  from assms(3,4) have pass: "ContainsAny (NodeName node) domesticChars"
    by (auto simp: ContainsAny_iff)
  show ?case
  proof (cases "n = node")
    case True
    define ds where "ds = (case ips (NodeIP node) of None \<Rightarrow> [] | Some ds \<Rightarrow> ds) @ [AvgTime node]"
    define ips' where "ips' = ips(NodeIP node \<mapsto> ds)"
    from True pass assms(2) have step: "collectDelays (n # rest) ips = collectDelays rest ips'"
      by (simp add: ips'_def ds_def)
    have "ips' (NodeIP node) = Some ds" by (simp add: ips'_def)
    with collectDelays_keeps [of ips' "NodeIP node" ds rest] obtain more where
      "collectDelays rest ips' (NodeIP node) = Some (ds @ more)" by blast
    moreover have "AvgTime node \<in> set (ds @ more)" by (simp add: ds_def)
    ultimately show ?thesis unfolding step by blast
  next
    case False
    with Cons.prems have "node \<in> set rest" by simp
    from Cons.IH [OF this] show ?thesis by simp
  qed
qed

text \<open>
  A node named Beihai, which contains no city name of the filter but shares one
  character with Beijing and one with Shanghai, is accepted and its address is returned.
\<close>

theorem domestic_filter_single_character_witness:
  "\<not> Timeout (hd beihaiReply) > 0 \<and> NodeName (hd beihaiReply) = [21271, 28023] \<and>
   collectDelays beihaiReply Map.empty (str ''20.205.243.166'') = Some [41] \<and>
   findFastestIP (\<lambda>ip. True) [str ''20.205.243.166''] beihaiReply (str ''github.com'')
     = Inr (str ''20.205.243.166'')"
proof -
  have n: "hd beihaiReply \<in> set beihaiReply" "Timeout (hd beihaiReply) \<le> 0"
    "21271 \<in> set (NodeName (hd beihaiReply))" "21271 \<in> set domesticChars"
    by (simp_all add: beihaiReply_def domesticChars_def)
  from domestic_filter_single_character [OF n, of Map.empty]
  obtain delays where "collectDelays beihaiReply Map.empty (NodeIP (hd beihaiReply)) = Some delays"
    by blast
  have "collectDelays beihaiReply Map.empty (str ''20.205.243.166'') = Some [41]"
    by (simp add: beihaiReply_def domesticChars_def)
  moreover have "findFastestIP (\<lambda>ip. True) [str ''20.205.243.166''] beihaiReply (str ''github.com'')
     = Inr (str ''20.205.243.166'')"
    by (simp add: findFastestIP_def beihaiReply_def domesticChars_def str_def)
  ultimately show ?thesis using n by (simp add: beihaiReply_def)
qed

subsection \<open>C6: a reply with no domestic node\<close>

lemma collectDelays_none:
  "\<forall>node \<in> set nodeList. Timeout node > 0 \<or> \<not> ContainsAny (NodeName node) domesticChars
   \<Longrightarrow> collectDelays nodeList ips = ips"
  by (induction nodeList arbitrary: ips) auto

lemma pickFastest_empty: "pickFastest Map.empty order acc = acc"
  by (induction order) (cases acc, simp)+

lemma bestIPs_error:
  "getBestIP ParseIP (orders domain) (replies domain) domain = Inl err
   \<Longrightarrow> bestIPs ParseIP orders replies ds ipMap domain = ipMap domain"
proof (induction ds arbitrary: ipMap)
  case Nil
  then show ?case by simp
next
  case (Cons d ds)
  show ?case
  proof (cases "d = domain")
    case True
    with Cons show ?thesis by simp
  next
    case False
    with Cons show ?thesis by (simp split: sum.splits)
  qed
qed

text \<open>
  C6 says that a reply whose entries all fail the filter counts as zero candidates, not
  as an error, and that the caller then falls back to a static table of addresses.
  \<open>findFastestIP\<close> returns an error for such a reply, and \<open>main\<close> gives no domain
  an address: this program has no static table.
\<close>

theorem tokyo_counterexample:
  "Timeout (hd tokyoReply) = 0 \<and> \<not> ContainsAny (NodeName (hd tokyoReply)) domesticChars \<and>
   findFastestIP (\<lambda>ip. True) [] tokyoReply (str ''github.com'') = Inl NoDomesticIP \<and>
   findFastestIP (\<lambda>ip. True) [str ''20.27.177.113''] tokyoReply (str ''github.com'') = Inl NoDomesticIP \<and>
   bestIPs (\<lambda>ip. True) (\<lambda>d. [str ''20.27.177.113'']) (\<lambda>d. Parsed tokyoReply) domains Map.empty
     = Map.empty"
  by (simp add: findFastestIP_def getBestIP_def tokyoReply_def domesticChars_def domains_def str_def)

text \<open>
  C6, amended. If the lookup returns entries and every entry fails the filter (it timed
  out, or its name has no character of the city names), \<open>findFastestIP\<close> and
  \<open>getBestIP\<close> return the error "no domestic address found", and the caller \<open>main\<close>
  leaves the domain without an address in the mapping it builds.
\<close>

theorem findFastestIP_no_domestic_node:
  assumes "replies domain = Parsed nodeList"
    and "\<forall>node \<in> set nodeList. Timeout node > 0 \<or> \<not> ContainsAny (NodeName node) domesticChars"
  shows "findFastestIP ParseIP order nodeList domain = Inl NoDomesticIP
       \<and> getBestIP ParseIP (orders domain) (replies domain) domain = Inl NoDomesticIP
       \<and> bestIPs ParseIP orders replies ds Map.empty domain = None"
proof -
  have f: "\<And>order. findFastestIP ParseIP order nodeList domain = Inl NoDomesticIP"
    using assms(2) by (simp add: findFastestIP_def collectDelays_none pickFastest_empty)
  then have g: "getBestIP ParseIP (orders domain) (replies domain) domain = Inl NoDomesticIP"
    using assms(1) by (simp add: getBestIP_def)
  from bestIPs_error [of ParseIP orders domain replies NoDomesticIP ds Map.empty] f g
  show ?thesis by simp
qed

text \<open>The reply with one node in Tokyo.\<close>

theorem findFastestIP_no_domestic_node_witness:
  "findFastestIP (\<lambda>ip. True) [] tokyoReply (str ''github.com'') = Inl NoDomesticIP \<and>
   getBestIP (\<lambda>ip. True) [] (Parsed tokyoReply) (str ''github.com'') = Inl NoDomesticIP \<and>
   bestIPs (\<lambda>ip. True) (\<lambda>d. []) (\<lambda>d. Parsed tokyoReply) domains Map.empty (str ''github.com'') = None"
proof -
  have a: "(\<lambda>d. Parsed tokyoReply) (str ''github.com'') = Parsed tokyoReply" by simp
  have b: "\<forall>node \<in> set tokyoReply. Timeout node > 0 \<or> \<not> ContainsAny (NodeName node) domesticChars"
    by (simp add: tokyoReply_def domesticChars_def str_def)
  from findFastestIP_no_domestic_node [where replies = "\<lambda>d. Parsed tokyoReply"
      and domain = "str ''github.com''" and nodeList = tokyoReply and ParseIP = "\<lambda>ip. True"
      and order = "[]" and orders = "\<lambda>d. []" and ds = domains] a b
  show ?thesis by simp
qed

end
